theory Spec2Isabelle
  imports Complex_Main
begin

section \<open>Samples, errors and arrays\<close>

text \<open>
  A sample of a scan is a measured value or the "no data" sentinel NaN.  Values are
  exact reals: the rounding of IEEE arithmetic and the infinities are not part of this
  model, the propagation of NaN is.
\<close>

datatype sample = NaN | Val real

datatype error = AssertionError | IndexError | ValueError | NameError | ZeroDivisionError

fun isnan :: "sample \<Rightarrow> bool" where
  "isnan NaN = True"
| "isnan (Val x) = False"

text \<open>Arithmetic on samples: NaN in, NaN out.\<close>

fun fsub :: "sample \<Rightarrow> sample \<Rightarrow> sample" where
  "fsub (Val a) (Val b) = Val (a - b)"
| "fsub _ _ = NaN"

fun fadd :: "sample \<Rightarrow> sample \<Rightarrow> sample" where
  "fadd (Val a) (Val b) = Val (a + b)"
| "fadd _ _ = NaN"

fun fsquare :: "sample \<Rightarrow> sample" where
  "fsquare (Val a) = Val (a * a)"
| "fsquare NaN = NaN"

fun fsqrt :: "sample \<Rightarrow> sample" where
  "fsqrt (Val a) = (if a < 0 then NaN else Val (sqrt a))"
| "fsqrt NaN = NaN"

text \<open>Division by a scalar that is not zero.\<close>

fun fdiv :: "sample \<Rightarrow> real \<Rightarrow> sample" where
  "fdiv (Val a) k = Val (a / k)"
| "fdiv NaN k = NaN"

text \<open>
  An n-dimensional array with the range as its last axis: its shape, and its beams, which
  are the rows of the view \<open>reshape((-1, shape[-1]))\<close>.
\<close>

record ndarray =
  shape :: "nat list"
  beams :: "sample list list"

definition wf_array :: "ndarray \<Rightarrow> bool" where
  "wf_array a \<longleftrightarrow>
     shape a \<noteq> [] \<and>
     length (beams a) = prod_list (butlast (shape a)) \<and>
     list_all (\<lambda>b. length b = last (shape a)) (beams a)"

text \<open>Python slices with indices that are not negative: \<open>xs[a:b]\<close> and \<open>xs[a:b] = v\<close>.\<close>

definition slice :: "'a list \<Rightarrow> nat \<Rightarrow> nat \<Rightarrow> 'a list" where
  "slice xs a b = take (b - a) (drop a xs)"

definition assign_slice :: "'a list \<Rightarrow> nat \<Rightarrow> nat \<Rightarrow> 'a \<Rightarrow> 'a list" where
  "assign_slice xs a b v = map (\<lambda>i. if a \<le> i \<and> i < b then v else xs ! i) [0..<length xs]"

section \<open>contiguous_regions\<close>

text \<open>\<open>np.diff\<close> of a boolean array: \<open>d[i] = c[i+1] xor c[i]\<close>.\<close>

definition np_diff :: "bool list \<Rightarrow> bool list" where
  "np_diff c = map (\<lambda>(a, b). a \<noteq> b) (zip (tl c) c)"

definition nonzero :: "bool list \<Rightarrow> nat list" where
  "nonzero d = filter (\<lambda>i. d ! i) [0..<length d]"

text \<open>\<open>idx.shape = (-1,2)\<close>: the indices two by two; an odd number of them is a ValueError.\<close>

fun reshape2 :: "nat list \<Rightarrow> (nat \<times> nat) list option" where
  "reshape2 [] = Some []"
| "reshape2 [a] = None"
| "reshape2 (a # b # r) = map_option ((#) (a, b)) (reshape2 r)"

definition contiguous_regions :: "bool list \<Rightarrow> error + (nat \<times> nat) list" where
  "contiguous_regions condition =
     (if condition = [] then Inl IndexError
      else
        let idx = map Suc (nonzero (np_diff condition));
            idx = (if condition ! 0 then 0 # idx else idx);
            idx = (if last condition then idx @ [length condition] else idx)
        in case reshape2 idx of None \<Rightarrow> Inl ValueError | Some r \<Rightarrow> Inr r)"

section \<open>fill_phidp\<close>

text \<open>\<open>np.compress(1 - isnan(arr1d), arr1d)\<close>: the values that are not NaN.\<close>

fun compress_valid :: "sample list \<Rightarrow> real list" where
  "compress_valid [] = []"
| "compress_valid (NaN # xs) = compress_valid xs"
| "compress_valid (Val v # xs) = v # compress_valid xs"

text \<open>\<open>np.median\<close> of a sorted array that is not empty.\<close>

definition np_median :: "real list \<Rightarrow> real" where
  "np_median x =
     (let n = length x
      in if n mod 2 = 1 then x ! (n div 2) else (x ! (n div 2 - 1) + x ! (n div 2)) / 2)"

definition nanmedian :: "sample list \<Rightarrow> sample" where
  "nanmedian arr1d =
     (let x = sort (compress_valid arr1d)
      in if x = [] then NaN else Val (np_median x))"

text \<open>\<open>np.mean([a, b])\<close>.\<close>

fun np_mean2 :: "sample \<Rightarrow> sample \<Rightarrow> sample" where
  "np_mean2 (Val a) (Val b) = Val ((a + b) / 2)"
| "np_mean2 _ _ = NaN"

text \<open>The body of the loop over the gaps of one beam, for the gap \<open>[g0, g1)\<close>.\<close>

definition fill_gap :: "nat \<Rightarrow> nat \<times> nat \<Rightarrow> sample list \<Rightarrow> sample list" where
  "fill_gap margin gap d =
     (let g0 = fst gap; g1 = snd gap;
          left = (if g0 < margin then 0 else g0 - margin);
          right = g1 + margin
      in if g0 = 0 then
           assign_slice d 0 g1 (nanmedian (slice d g1 (g1 + margin)))
         else if g1 = length d then
           assign_slice d g0 (length d) (nanmedian (slice d left g0))
         else
           let right = (if right > length d then length d else right)
           in assign_slice d g0 g1
                (np_mean2 (nanmedian (slice d g1 right)) (nanmedian (slice d left g0))))"

fun fill_gaps :: "nat \<Rightarrow> (nat \<times> nat) list \<Rightarrow> sample list \<Rightarrow> sample list" where
  "fill_gaps margin [] d = d"
| "fill_gaps margin (gap # gaps) d = fill_gaps margin gaps (fill_gap margin gap d)"

text \<open>The body of the loop over the beams; \<open>invalids\<close> is taken before any beam is filled.\<close>

definition fill_beam :: "nat \<Rightarrow> sample list \<Rightarrow> error + sample list" where
  "fill_beam margin d =
     (if list_all isnan d then Inr (replicate (length d) (Val 0))
      else case contiguous_regions (map isnan d) of
             Inl e \<Rightarrow> Inl e
           | Inr gaps \<Rightarrow> Inr (fill_gaps margin gaps d))"

fun fill_beams :: "nat \<Rightarrow> sample list list \<Rightarrow> error + sample list list" where
  "fill_beams margin [] = Inr []"
| "fill_beams margin (d # ds) =
     (case fill_beam margin d of
        Inl e \<Rightarrow> Inl e
      | Inr d' \<Rightarrow> (case fill_beams margin ds of Inl e \<Rightarrow> Inl e | Inr ds' \<Rightarrow> Inr (d' # ds')))"

text \<open>
  \<open>shape[-1]\<close> of a 0-dimensional array is an IndexError, and \<open>reshape((-1, 0))\<close> a
  ValueError: both are raised before a beam is touched.
\<close>

definition fill_phidp :: "nat \<Rightarrow> ndarray \<Rightarrow> error + ndarray" where
  "fill_phidp margin data =
     (if shape data = [] then Inl IndexError
      else if last (shape data) = 0 then Inl ValueError
      else case fill_beams margin (beams data) of
             Inl e \<Rightarrow> Inl e
           | Inr bs \<Rightarrow> Inr (data\<lparr>beams := bs\<rparr>))"

section \<open>linear_despeckle\<close>

text \<open>
  \<open>np.roll\<close> along one axis of length n: \<open>shift %= n\<close>, then the last \<open>shift\<close> elements
  come first.  On an axis of length 0 the \<open>%=\<close> is a ZeroDivisionError, which the callers
  below raise before they roll.
\<close>

definition np_roll :: "int \<Rightarrow> 'a list \<Rightarrow> 'a list" where
  "np_roll shift xs =
     (let n = int (length xs); s = shift mod n
      in drop (nat (n - s)) xs @ take (nat (n - s)) xs)"

definition valid_flags :: "sample list \<Rightarrow> int list" where
  "valid_flags d = map (\<lambda>x. if isnan x then 0 else 1) d"

definition window_count :: "nat \<Rightarrow> sample list \<Rightarrow> int list" where
  "window_count N d =
     (let arr = valid_flags d;
          arr_plus1 = np_roll 1 arr;
          arr_minus1 = np_roll (- 1) arr
      in if N = 3 then
           map (\<lambda>i. arr ! i + arr_plus1 ! i + arr_minus1 ! i) [0..<length d]
         else
           let arr_plus2 = np_roll 2 arr;
               arr_minus2 = np_roll (- 2) arr
           in map (\<lambda>i. arr ! i + arr_plus1 ! i + arr_minus1 ! i + arr_plus2 ! i + arr_minus2 ! i)
                [0..<length d])"

text \<open>\<open>data[logical_and(logical_not(isnan(data)), test < 2)] = nan\<close> (\<open>test < 3\<close> for N = 5).\<close>

definition despeckle_window :: "nat \<Rightarrow> sample list \<Rightarrow> sample list" where
  "despeckle_window N d =
     (let test = window_count N d;
          limit = (if N = 3 then 2 else 3)
      in map (\<lambda>i. if \<not> isnan (d ! i) \<and> test ! i < limit then NaN else d ! i) [0..<length d])"

text \<open>
  \<open>data[isnan(take(data, [1], axis))] = nan\<close>: the mask has one column, so where it is
  True it selects gate 0 of its beam.
\<close>

definition first_gate :: "sample list \<Rightarrow> sample list" where
  "first_gate d = (if isnan (d ! 1) then d[0 := NaN] else d)"

definition linear_despeckle :: "nat \<Rightarrow> ndarray \<Rightarrow> error + ndarray" where
  "linear_despeckle N data =
     (if N \<noteq> 3 \<and> N \<noteq> 5 then Inl AssertionError
      else if shape data = [] then Inl IndexError
      else if last (shape data) = 0 then Inl ZeroDivisionError
      else if last (shape data) < 2 then Inl IndexError
      else Inr (data\<lparr>beams := map (first_gate \<circ> despeckle_window N) (beams data)\<rparr>))"

section \<open>texture\<close>

text \<open>
  \<open>num / xa_valid_count\<close>.  With no valid neighbour every difference is NaN and is
  set to zero, so the only division by zero is 0 / 0, which is NaN.
\<close>

fun np_divide :: "sample \<Rightarrow> real \<Rightarrow> sample" where
  "np_divide (Val a) k = (if k = 0 then NaN else Val (a / k))"
| "np_divide NaN k = NaN"

text \<open>\<open>diff[isnan(diff)] = 0\<close>.\<close>

fun nan_to_zero :: "sample \<Rightarrow> sample" where
  "nan_to_zero NaN = Val 0"
| "nan_to_zero (Val a) = Val a"

text \<open>One position: the centre sample and its eight rolled neighbours \<open>xa\<close>.\<close>

definition texture_cell :: "sample \<Rightarrow> sample list \<Rightarrow> sample" where
  "texture_cell c xa =
     (let xa_valid_count = real (length (filter (\<lambda>x. \<not> isnan x) xa));
          num = foldl (\<lambda>num xarr. fadd num (fsquare (nan_to_zero (fsub c xarr)))) (Val 0) xa;
          num = (if isnan c then NaN else num)
      in fsqrt (np_divide num xa_valid_count))"

text \<open>Rolling a two-dimensional array along the beam axis (-2) and the range axis (-1).\<close>

definition roll_beams :: "int \<Rightarrow> sample list list \<Rightarrow> sample list list" where
  "roll_beams shift a = np_roll shift a"

definition roll_gates :: "int \<Rightarrow> sample list list \<Rightarrow> sample list list" where
  "roll_gates shift a = map (np_roll shift) a"

definition texture2d :: "sample list list \<Rightarrow> sample list list" where
  "texture2d data =
     (let x1 = roll_beams 1 data;
          x2 = roll_gates 1 data;
          x3 = roll_beams (- 1) data;
          x4 = roll_gates (- 1) data;
          x5 = roll_gates 1 x1;
          x6 = roll_beams 1 x4;
          x7 = roll_gates (- 1) x3;
          x8 = roll_beams (- 1) x2;
          xa = [x1, x2, x3, x4, x5, x6, x7, x8]
      in map (\<lambda>i. map (\<lambda>j. texture_cell (data ! i ! j) (map (\<lambda>xarr. xarr ! i ! j) xa))
                      [0..<length (data ! i)])
           [0..<length data])"

text \<open>
  The leading axes index independent two-dimensional arrays of \<open>shape[-2]\<close> beams each.
\<close>

definition split_slabs :: "nat \<Rightarrow> 'a list \<Rightarrow> 'a list list" where
  "split_slabs nb bs = map (\<lambda>k. take nb (drop (k * nb) bs)) [0..<length bs div nb]"

definition texture :: "ndarray \<Rightarrow> error + ndarray" where
  "texture data =
     (if length (shape data) < 2 then Inl IndexError
      else if last (butlast (shape data)) = 0 \<or> last (shape data) = 0 then Inl ZeroDivisionError
      else Inr (data\<lparr>beams :=
             concat (map texture2d (split_slabs (last (butlast (shape data))) (beams data)))\<rparr>))"

section \<open>kdp_from_phidp\<close>

text \<open>An index into an axis of length n: negative indices count from the end.\<close>

definition norm_index :: "nat \<Rightarrow> int \<Rightarrow> error + nat" where
  "norm_index n i =
     (if 0 \<le> i \<and> i < int n then Inr (nat i)
      else if - int n \<le> i \<and> i < 0 then Inr (nat (int n + i))
      else Inl IndexError)"

text \<open>
  The body of the loop, for all beams at once:
  \<open>kdp[...,r] = (phidp[...,r+L/2] - phidp[...,r-L/2]) / (2*L)\<close>, with \<open>/\<close> of integers the
  floor division.
\<close>

definition kdp_step ::
  "int \<Rightarrow> nat \<Rightarrow> sample list list \<Rightarrow> int \<Rightarrow> sample list list \<Rightarrow> error + sample list list" where
  "kdp_step L n phidp r kdp =
     (case norm_index n (r + L div 2) of
        Inl e \<Rightarrow> Inl e
      | Inr hi \<Rightarrow>
          (case norm_index n (r - L div 2) of
             Inl e \<Rightarrow> Inl e
           | Inr lo \<Rightarrow>
               (case norm_index n r of
                  Inl e \<Rightarrow> Inl e
                | Inr ri \<Rightarrow>
                    Inr (map (\<lambda>(p, k). k[ri := fdiv (fsub (p ! hi) (p ! lo)) (real_of_int (2 * L))])
                           (zip phidp kdp)))))"

fun kdp_loop ::
  "int \<Rightarrow> nat \<Rightarrow> sample list list \<Rightarrow> int list \<Rightarrow> sample list list \<Rightarrow> error + sample list list" where
  "kdp_loop L n phidp [] kdp = Inr kdp"
| "kdp_loop L n phidp (r # rs) kdp =
     (case kdp_step L n phidp r kdp of
        Inl e \<Rightarrow> Inl e
      | Inr kdp' \<Rightarrow> kdp_loop L n phidp rs kdp')"

definition kdp_from_phidp :: "int \<Rightarrow> ndarray \<Rightarrow> error + ndarray" where
  "kdp_from_phidp L phidp =
     (if L mod 2 \<noteq> 1 then Inl AssertionError
      else if shape phidp = [] then Inl IndexError
      else
        let n = last (shape phidp);
            kdp = map (\<lambda>b. replicate n (Val 0)) (beams phidp)
        in case kdp_loop L n (beams phidp) [L div 2 .. int n - L div 2 - 1] kdp of
             Inl e \<Rightarrow> Inl e
           | Inr kdp' \<Rightarrow> Inr (phidp\<lparr>beams := kdp'\<rparr>))"

text \<open>The ramp \<open>phidp[r] = a*r + b\<close> for \<open>r = 0..nr-1\<close>, as one beam.\<close>

definition ramp :: "real \<Rightarrow> real \<Rightarrow> nat \<Rightarrow> ndarray" where
  "ramp a b nr = \<lparr>shape = [nr], beams = [map (\<lambda>r. Val (a * real r + b)) [0..<nr]]\<rparr>"

section \<open>unfold_phi_naive and process_raw_phidp\<close>

text \<open>Comparisons of a sample with a constant: False on NaN.\<close>

fun flt :: "sample \<Rightarrow> real \<Rightarrow> bool" where
  "flt (Val a) t = (a < t)"
| "flt NaN t = False"

fun fgt :: "sample \<Rightarrow> real \<Rightarrow> bool" where
  "fgt (Val a) t = (a > t)"
| "fgt NaN t = False"

fun fscale :: "sample \<Rightarrow> real \<Rightarrow> sample" where
  "fscale (Val a) k = Val (a * k)"
| "fscale NaN k = NaN"

text \<open>\<open>np.mean\<close> and \<open>np.std\<close> of a one-dimensional slice.\<close>

definition np_mean :: "sample list \<Rightarrow> sample" where
  "np_mean xs =
     (if xs = [] \<or> list_ex isnan xs then NaN
      else Val (sum_list (compress_valid xs) / real (length xs)))"

definition np_std :: "sample list \<Rightarrow> sample" where
  "np_std xs =
     (if xs = [] \<or> list_ex isnan xs then NaN
      else
        let vs = compress_valid xs;
            m = sum_list vs / real (length vs)
        in Val (sqrt (sum_list (map (\<lambda>v. (v - m) * (v - m)) vs) / real (length vs))))"

text \<open>
  \<open>stdarr\<close> of one beam: \<open>stdarr[r] = std(phidp[r:r+9])\<close> for \<open>r\<close> in \<open>xrange(rs-9)\<close>, zero
  elsewhere.
\<close>

definition std_windows :: "sample list \<Rightarrow> sample list" where
  "std_windows d =
     map (\<lambda>r. if r + 9 < length d then np_std (slice d r (r + 9)) else Val 0) [0..<length d]"

text \<open>
  \<open>medfilt_along_axis\<close>: the median filter of scipy along the range axis, which is not
  part of this repository, is the parameter \<open>medfilt\<close>; it refuses an even kernel.
\<close>

definition medfilt_along_axis ::
  "(nat \<Rightarrow> sample list \<Rightarrow> sample list) \<Rightarrow> sample list list \<Rightarrow> nat \<Rightarrow> error + sample list list" where
  "medfilt_along_axis medfilt x N =
     (if N mod 2 \<noteq> 1 then Inl ValueError else Inr (map (medfilt N) x))"

text \<open>\<open>gradient_along_axis\<close> on one beam of at least two gates.\<close>

definition gradient_beam :: "sample list \<Rightarrow> sample list" where
  "gradient_beam x =
     (let n = length x;
          diff_begin = fsub (x ! 1) (x ! 0);
          diff_end = fsub (x ! (n - 1)) (x ! (n - 2));
          rolled = np_roll 2 x;
          diffs = map (\<lambda>i. fdiv (fsub (x ! i) (rolled ! i)) 2) [0..<n];
          diffs = drop 2 diffs @ [diff_end]
      in diff_begin # diffs)"

definition gradient_along_axis :: "nat \<Rightarrow> sample list list \<Rightarrow> error + sample list list" where
  "gradient_along_axis n x = (if n < 2 then Inl IndexError else Inr (map gradient_beam x))"

definition gradient_from_smoothed ::
  "(nat \<Rightarrow> sample list \<Rightarrow> sample list) \<Rightarrow> nat \<Rightarrow> sample list list \<Rightarrow> error + sample list list" where
  "gradient_from_smoothed medfilt n x =
     (case medfilt_along_axis medfilt x 5 of
        Inl e \<Rightarrow> Inl e
      | Inr s \<Rightarrow> gradient_along_axis n s)"

text \<open>\<open>np.sum(xs < t)\<close> and \<open>np.sum(xs > t)\<close>.\<close>

definition count_lt :: "sample list \<Rightarrow> real \<Rightarrow> nat" where
  "count_lt xs t = length (filter (\<lambda>x. flt x t) xs)"

definition count_gt :: "sample list \<Rightarrow> real \<Rightarrow> nat" where
  "count_gt xs t = length (filter (\<lambda>x. fgt x t) xs)"

text \<open>
  Step 1 for one beam, the loop \<open>for j in range(0, rs-width)\<close> with its \<open>break\<close>.  The
  last argument is the binding of \<open>j\<close> before the loop: none in the first beam, the
  one the previous beam left afterwards.  When no window passes the test, \<open>j\<close> stays at
  the last index of the range.
\<close>

fun onset_search :: "sample list \<Rightarrow> sample list \<Rightarrow> nat \<Rightarrow> nat list \<Rightarrow> nat option \<Rightarrow> nat option" where
  "onset_search stdarr rho width [] j = j"
| "onset_search stdarr rho width (j' # js) j =
     (if count_lt (slice stdarr j' (j' + width)) 5 = width \<and>
         count_gt (slice rho j' (j' + 5)) 0.9 = width
      then Some j'
      else onset_search stdarr rho width js (Some j'))"

text \<open>\<open>phidp[beam,k] - ref < -80\<close> and \<open>phidp[beam,k] < 0\<close>: add 360 to gate k.\<close>

definition unwrap_gate :: "sample \<Rightarrow> nat \<Rightarrow> sample list \<Rightarrow> sample list" where
  "unwrap_gate ref k p =
     (if flt (fsub (p ! k) ref) (- 80) \<and> flt (p ! k) 0 then p[k := fadd (p ! k) (Val 360)] else p)"

fun track ::
  "sample list \<Rightarrow> sample list \<Rightarrow> nat \<Rightarrow> nat list \<Rightarrow> sample \<Rightarrow> sample list \<Rightarrow> sample list" where
  "track stdarr gradphi width [] ref p = p"
| "track stdarr gradphi width (k # ks) ref p =
     (if count_lt (slice stdarr (k - width) k) 5 \<noteq> 0 \<and>
         fgt (gradphi ! k) (- 5) \<and> flt (gradphi ! k) 20
      then
        let ref = fadd ref (fscale (gradphi ! k) 0.5)
        in track stdarr gradphi width ks ref (unwrap_gate ref k p)
      else track stdarr gradphi width ks ref (unwrap_gate ref k p))"

text \<open>The body of the loop over the beams; it passes the binding of \<open>j\<close> on.\<close>

definition unfold_beam ::
  "nat \<Rightarrow> nat \<Rightarrow> nat option \<Rightarrow> sample list \<Rightarrow> sample list \<Rightarrow> sample list \<Rightarrow> sample list \<Rightarrow>
     error + nat option \<times> sample list" where
  "unfold_beam width rs j stdarr gradphi rho p =
     (if list_all (\<lambda>x. x = Val 0) p then Inr (j, p)
      else
        case onset_search stdarr rho width [0..<rs - width] j of
          None \<Rightarrow> Inl NameError
        | Some j \<Rightarrow>
            let ref = np_mean (slice p j (j + width))
            in Inr (Some j, track stdarr gradphi width [j + width..<rs] ref p))"

fun unfold_beams ::
  "nat \<Rightarrow> nat \<Rightarrow> nat option \<Rightarrow> sample list list \<Rightarrow> sample list list \<Rightarrow> sample list list \<Rightarrow>
     sample list list \<Rightarrow> error + sample list list" where
  "unfold_beams width rs j (s # stdarr) (g # gradphi) (r # rho) (p # phidp) =
     (case unfold_beam width rs j s g r p of
        Inl e \<Rightarrow> Inl e
      | Inr (j', p') \<Rightarrow>
          (case unfold_beams width rs j' stdarr gradphi rho phidp of
             Inl e \<Rightarrow> Inl e
           | Inr ps \<Rightarrow> Inr (p' # ps)))"
| "unfold_beams width rs j stdarr gradphi rho phidp = Inr []"

text \<open>
  The start of both unfolding functions: the assertion on the shapes, the two reshapes,
  the smoothed gradient and the dispersion.  Nothing is written before it is through.
\<close>

definition unfold_prepare ::
  "(nat \<Rightarrow> sample list \<Rightarrow> sample list) \<Rightarrow> ndarray \<Rightarrow> ndarray \<Rightarrow>
     error + sample list list \<times> sample list list" where
  "unfold_prepare medfilt phidp rho =
     (if shape rho \<noteq> shape phidp then Inl AssertionError
      else if shape phidp = [] then Inl IndexError
      else if last (shape phidp) = 0 then Inl ValueError
      else
        case gradient_from_smoothed medfilt (last (shape phidp)) (beams phidp) of
          Inl e \<Rightarrow> Inl e
        | Inr gradphi \<Rightarrow> Inr (gradphi, map std_windows (beams phidp)))"

text \<open>
  unfold_phi_naive writes into \<open>phidp\<close> (unless \<open>copy\<close>) and returns the two-dimensional
  view.  A NameError can only come from an empty range of \<open>j\<close>, which is empty for every
  beam, so it is raised before the first write.
\<close>

definition unfold_phi_naive ::
  "(nat \<Rightarrow> sample list \<Rightarrow> sample list) \<Rightarrow> ndarray \<Rightarrow> ndarray \<Rightarrow> nat \<Rightarrow> error + ndarray" where
  "unfold_phi_naive medfilt phidp rho width =
     (case unfold_prepare medfilt phidp rho of
        Inl e \<Rightarrow> Inl e
      | Inr (gradphi, stdarr) \<Rightarrow>
          (case unfold_beams width (last (shape phidp)) None stdarr gradphi (beams rho) (beams phidp) of
             Inl e \<Rightarrow> Inl e
           | Inr ps \<Rightarrow> Inr \<lparr>shape = [length (beams phidp), last (shape phidp)], beams = ps\<rparr>))"

text \<open>
  unfold_phi hands copies (\<open>astype("f4")\<close>) to the Fortran routine \<open>f_unfold_phi\<close>, which
  is not part of this repository and is a parameter here.
\<close>

definition unfold_phi ::
  "(sample list list \<Rightarrow> sample list list \<Rightarrow> sample list list \<Rightarrow> sample list list \<Rightarrow> nat \<Rightarrow> sample list list) \<Rightarrow>
     (nat \<Rightarrow> sample list \<Rightarrow> sample list) \<Rightarrow> ndarray \<Rightarrow> ndarray \<Rightarrow> nat \<Rightarrow> error + ndarray" where
  "unfold_phi f_unfold_phi medfilt phidp rho width =
     (case unfold_prepare medfilt phidp rho of
        Inl e \<Rightarrow> Inl e
      | Inr (gradphi, stdarr) \<Rightarrow>
          Inr (phidp\<lparr>beams := f_unfold_phi (beams phidp) (beams rho) gradphi stdarr width\<rparr>))"

text \<open>
  process_raw_phidp.  The second component of the result is what the caller's array
  \<open>phidp\<close> holds when the call returns or raises: with \<open>copy\<close> the stages work on a copy;
  without it linear_despeckle, fill_phidp and unfold_phi_naive write into the caller's
  array (each of them raises, if it does, before its first write), while unfold_phi and
  the median filter return new arrays.
\<close>

definition process_raw_phidp ::
  "bool \<Rightarrow>
   (sample list list \<Rightarrow> sample list list \<Rightarrow> sample list list \<Rightarrow> sample list list \<Rightarrow> nat \<Rightarrow> sample list list) \<Rightarrow>
   (nat \<Rightarrow> sample list \<Rightarrow> sample list) \<Rightarrow>
   ndarray \<Rightarrow> ndarray \<Rightarrow> nat \<Rightarrow> nat \<Rightarrow> nat \<Rightarrow> nat \<Rightarrow> bool \<Rightarrow> (error + ndarray) \<times> ndarray" where
  "process_raw_phidp speedupexists f_unfold_phi medfilt phidp rho
       N_despeckle N_fillmargin N_unfold N_filter copy =
     (case linear_despeckle N_despeckle phidp of
        Inl e \<Rightarrow> (Inl e, phidp)
      | Inr p1 \<Rightarrow>
          (case fill_phidp N_fillmargin p1 of
             Inl e \<Rightarrow> (Inl e, if copy then phidp else p1)
           | Inr p2 \<Rightarrow>
               (case (if speedupexists then unfold_phi f_unfold_phi medfilt p2 rho N_unfold
                      else unfold_phi_naive medfilt p2 rho N_unfold) of
                  Inl e \<Rightarrow> (Inl e, if copy then phidp else p2)
                | Inr p3 \<Rightarrow>
                    (case medfilt_along_axis medfilt (beams p3) N_filter of
                       Inl e \<Rightarrow> Inl e
                     | Inr bs \<Rightarrow> Inr (p3\<lparr>beams := bs\<rparr>),
                     if copy then phidp
                     else if speedupexists then p2
                     else p2\<lparr>beams := beams p3\<rparr>))))"

section \<open>Notions used to state the properties\<close>

text \<open>
  The boundaries of the True runs of a boolean sequence that follows an element
  \<open>prev\<close>, counted from k: every index whose element differs from the one before it,
  and the end of the sequence when it ends inside a run.
\<close>

fun edges :: "bool \<Rightarrow> nat \<Rightarrow> bool list \<Rightarrow> nat list" where
  "edges prev k [] = (if prev then [k] else [])"
| "edges prev k (x # xs) = (if x \<noteq> prev then [k] else []) @ edges x (Suc k) xs"

text \<open>\<open>[s, e)\<close> is a maximal run of True in c.\<close>

definition is_max_run :: "bool list \<Rightarrow> nat \<Rightarrow> nat \<Rightarrow> bool" where
  "is_max_run c s e \<longleftrightarrow>
     s < e \<and> e \<le> length c \<and> (\<forall>i. s \<le> i \<and> i < e \<longrightarrow> c ! i) \<and>
     (s = 0 \<or> \<not> c ! (s - 1)) \<and> (e = length c \<or> \<not> c ! e)"

fun flat :: "(nat \<times> nat) list \<Rightarrow> nat list" where
  "flat [] = []"
| "flat ((s, e) # r) = s # e # flat r"

text \<open>
  The pairs \<open>rs\<close> have strictly increasing boundaries within c, and an index of c holds
  True exactly when it lies in one of them.
\<close>

definition runs_of :: "bool list \<Rightarrow> (nat \<times> nat) list \<Rightarrow> bool" where
  "runs_of c rs \<longleftrightarrow>
     sorted_wrt (<) (flat rs) \<and> (\<forall>x \<in> set (flat rs). x \<le> length c) \<and>
     (\<forall>i < length c. c ! i \<longleftrightarrow> (\<exists>(s, e) \<in> set rs. s \<le> i \<and> i < e))"

text \<open>The windowed difference of one beam p at gate r.\<close>

definition kdp_value :: "int \<Rightarrow> sample list \<Rightarrow> nat \<Rightarrow> sample" where
  "kdp_value L p r =
     fdiv (fsub (p ! (r + nat (L div 2))) (p ! (r - nat (L div 2)))) (real_of_int (2 * L))"

text \<open>Gate r of beam b of a result, when there is one.\<close>

definition result_gate :: "error + ndarray \<Rightarrow> nat \<Rightarrow> nat \<Rightarrow> sample option" where
  "result_gate res b r = (case res of Inl e \<Rightarrow> None | Inr a \<Rightarrow> Some (beams a ! b ! r))"

text \<open>A scan of two beams: one with an interior gap, one without any valid sample.\<close>

definition gap_example :: ndarray where
  "gap_example = \<lparr>shape = [2, 6], beams = [[Val 1, Val 3, NaN, NaN, Val 5, Val 9],
                                           [NaN, NaN, NaN, NaN, NaN, NaN]]\<rparr>"

text \<open>A beam with two gaps closer to each other than the margin.\<close>

definition near_gaps :: ndarray where
  "near_gaps = \<lparr>shape = [5], beams = [[Val 1, NaN, Val 5, NaN, Val 9]]\<rparr>"

text \<open>Two beams on which a second despeckling removes more than the first.\<close>

definition speckle3 :: ndarray where
  "speckle3 = \<lparr>shape = [4], beams = [[Val 1, NaN, NaN, Val 1]]\<rparr>"

definition speckle_inner :: ndarray where
  "speckle_inner = \<lparr>shape = [5], beams = [[Val 1, Val 2, NaN, Val 3, NaN]]\<rparr>"

definition speckle5 :: ndarray where
  "speckle5 = \<lparr>shape = [8], beams = [[Val 1, Val 1, NaN, Val 1, NaN, NaN, NaN, NaN]]\<rparr>"

text \<open>A two-dimensional array of m rows of n elements.\<close>

definition rect :: "nat \<Rightarrow> nat \<Rightarrow> 'a list list \<Rightarrow> bool" where
  "rect m n a \<longleftrightarrow> length a = m \<and> (\<forall>row \<in> set a. length row = n)"

text \<open>A spatially constant scan.\<close>

definition flat_field :: ndarray where
  "flat_field = \<lparr>shape = [2, 3], beams = [[Val 4, Val 4, Val 4], [Val 4, Val 4, Val 4]]\<rparr>"

text \<open>
  Instances of the two routines that are parameters, for closed examples; the examples
  below raise before either is called.
\<close>

definition any_medfilt :: "nat \<Rightarrow> sample list \<Rightarrow> sample list" where
  "any_medfilt N d = d"

definition any_f_unfold_phi ::
  "sample list list \<Rightarrow> sample list list \<Rightarrow> sample list list \<Rightarrow> sample list list \<Rightarrow> nat \<Rightarrow> sample list list" where
  "any_f_unfold_phi phidp rho gradphi stdarr w = phidp"

text \<open>A raw scan of one beam, and a quality array of another shape.\<close>

definition raw_phidp :: ndarray where
  "raw_phidp = \<lparr>shape = [1, 6], beams = [[Val 1, NaN, Val 2, Val 3, NaN, Val 4]]\<rparr>"

definition short_rho :: ndarray where
  "short_rho = \<lparr>shape = [1, 5], beams = [[Val 1, Val 1, Val 1, Val 1, Val 1]]\<rparr>"

text \<open>
  A beam of 8 gates that is folded from gate 3 on, with a quality of 1 at every gate.
\<close>

definition folded_beam :: "sample list" where
  "folded_beam = [Val 100, Val 100, Val 100, Val (- 250), Val (- 250), Val (- 250), Val (- 250), Val (- 250)]"

definition good_rho :: "sample list" where
  "good_rho = replicate 8 (Val 1)"

text \<open>The neighbours of gate i on a beam of n gates that wraps around.\<close>

definition pred_gate :: "nat \<Rightarrow> nat \<Rightarrow> nat" where
  "pred_gate n i = nat ((int i - 1) mod int n)"

definition succ_gate :: "nat \<Rightarrow> nat \<Rightarrow> nat" where
  "succ_gate n i = nat ((int i + 1) mod int n)"

section \<open>The runs found by contiguous_regions\<close>

lemma nonzero_Cons: "nonzero (b # d) = (if b then [0] else []) @ map Suc (nonzero d)"
proof -
  have "[0..<length (b # d)] = 0 # map Suc [0..<length d]"
    by (simp add: upt_conv_Cons map_Suc_upt del: upt_Suc)
  then show ?thesis
    by (simp add: nonzero_def filter_map comp_def del: upt_Suc)
qed

lemma nonzero_Nil: "nonzero [] = []"
  by (simp add: nonzero_def)

lemma np_diff_Cons2: "np_diff (x # y # ys) = (y \<noteq> x) # np_diff (y # ys)"
  by (simp add: np_diff_def)

lemma np_diff_single: "np_diff [x] = []"
  by (simp add: np_diff_def)

lemma idx_edges_aux:
  "map (\<lambda>i. Suc (k + i)) (nonzero (np_diff (x # xs))) @
     (if last (x # xs) then [Suc (k + length xs)] else []) = edges x (Suc k) xs"
proof (induction xs arbitrary: x k)
  case Nil
  show ?case by (simp add: np_diff_single nonzero_Nil)
next
  case (Cons y ys)
  have l: "last (x # y # ys) = last (y # ys)" by simp
  have "map (\<lambda>i. Suc (k + i)) (nonzero (np_diff (x # y # ys))) =
        (if y \<noteq> x then [Suc k] else []) @
        map (\<lambda>i. Suc (Suc k + i)) (nonzero (np_diff (y # ys)))"
    by (simp add: np_diff_Cons2 nonzero_Cons comp_def)
  with Cons.IH [of "Suc k" y] show ?case
    unfolding l by (cases "last (y # ys)") (simp_all del: last.simps)
qed

lemma idx_edges:
  assumes "c \<noteq> []"
  shows "(let idx = map Suc (nonzero (np_diff c));
            idx = (if c ! 0 then 0 # idx else idx);
            idx = (if last c then idx @ [length c] else idx)
          in idx) = edges False 0 c"
proof -
  from assms obtain x xs where c: "c = x # xs" by (cases c) auto
  have e: "map Suc (nonzero (np_diff (x # xs))) @
     (if last (x # xs) then [Suc (length xs)] else []) = edges x (Suc 0) xs"
    using idx_edges_aux [of 0 x xs] by (cases "last (x # xs)") (simp_all del: last.simps)
  have l: "length (x # xs) = Suc (length xs)" by simp
  show ?thesis
  proof (cases x)
    case True
    with e show ?thesis unfolding c Let_def l
      by (cases "last (x # xs)") (simp_all del: last.simps)
  next
    case False
    with e show ?thesis unfolding c Let_def l
      by (cases "last (x # xs)") (simp_all del: last.simps)
  qed
qed

lemma contiguous_regions_edges:
  "c \<noteq> [] \<Longrightarrow> contiguous_regions c =
     (case reshape2 (edges False 0 c) of None \<Rightarrow> Inl ValueError | Some r \<Rightarrow> Inr r)"
  using idx_edges [of c] by (simp add: contiguous_regions_def Let_def)

lemma edges_length_parity: "even (length (edges prev k xs)) \<longleftrightarrow> \<not> prev"
  by (induction xs arbitrary: prev k) auto

lemma reshape2_even: "even (length es) \<Longrightarrow> \<exists>rs. reshape2 es = Some rs \<and> flat rs = es"
  by (induction es rule: reshape2.induct) auto

lemma edges_bounds: "e \<in> set (edges prev k xs) \<Longrightarrow> k \<le> e \<and> e \<le> k + length xs"
  by (induction xs arbitrary: prev k) (fastforce split: if_splits)+

lemma edges_sorted: "sorted_wrt (<) (edges prev k xs)"
proof (induction xs arbitrary: prev k)
  case Nil
  show ?case by simp
next
  case (Cons x xs)
  have "\<forall>e \<in> set (edges x (Suc k) xs). k < e"
    by (auto dest: edges_bounds)
  with Cons.IH [of x "Suc k"] show ?case by (cases x; cases prev; simp)
qed

lemma edges_count:
  "k \<le> i \<Longrightarrow> i < k + length xs \<Longrightarrow>
     (odd (length (filter (\<lambda>e. e \<le> i) (edges prev k xs))) \<noteq> prev) = xs ! (i - k)"
proof (induction xs arbitrary: prev k)
  case Nil
  then show ?case by simp
next
  case (Cons x xs)
  show ?case
  proof (cases "i = k")
    case True
    have "\<forall>e \<in> set (edges x (Suc k) xs). \<not> e \<le> i"
      using True by (auto dest: edges_bounds)
    then have "filter (\<lambda>e. e \<le> i) (edges x (Suc k) xs) = []"
      by (simp add: filter_empty_conv)
    with True show ?thesis by auto
  next
    case False
    with Cons.prems have "Suc k \<le> i" "i < Suc k + length xs" by auto
    from Cons.IH [OF this, of x] Cons.prems False show ?thesis
      by (auto simp: nth_Cons')
  qed
qed

lemma flat_mem: "(s, e) \<in> set rs \<Longrightarrow> s \<in> set (flat rs) \<and> e \<in> set (flat rs)"
  by (induction rs rule: flat.induct) auto

lemma flat_count:
  "sorted_wrt (<) (flat rs) \<Longrightarrow>
     odd (length (filter (\<lambda>e. e \<le> i) (flat rs))) \<longleftrightarrow> (\<exists>(s, e) \<in> set rs. s \<le> i \<and> i < e)"
proof (induction rs rule: flat.induct)
  case 1
  show ?case by simp
next
  case (2 s e r)
  from "2.prems" have se: "s < e" and gt: "\<forall>x \<in> set (flat r). e < x"
    and sr: "sorted_wrt (<) (flat r)" by auto
  show ?case
  proof (cases "i < e")
    case True
    with gt have "filter (\<lambda>x. x \<le> i) (flat r) = []"
      by (auto simp: filter_empty_conv)
    moreover have "\<not> (\<exists>(s', e') \<in> set r. s' \<le> i \<and> i < e')"
    proof
      assume "\<exists>(s', e') \<in> set r. s' \<le> i \<and> i < e'"
      then obtain s' e' where "(s', e') \<in> set r" "s' \<le> i" by auto
      then have "s' \<in> set (flat r)" by (auto dest: flat_mem)
      with gt \<open>s' \<le> i\<close> True show False by auto
    qed
    ultimately show ?thesis using True se by auto
  next
    case False
    with se "2.IH" [OF sr] show ?thesis by auto
  qed
qed

lemma flat_ordered:
  "sorted_wrt (<) (flat rs) \<Longrightarrow>
     sorted_wrt (\<lambda>p q. snd p < fst q) rs \<and> (\<forall>(s, e) \<in> set rs. s < e)"
proof (induction rs rule: flat.induct)
  case 1
  show ?case by simp
next
  case (2 s e r)
  from "2.prems" have se: "s < e" and gt: "\<forall>x \<in> set (flat r). e < x"
    and sr: "sorted_wrt (<) (flat r)" by auto
  have "\<forall>q \<in> set r. e < fst q"
  proof
    fix q assume "q \<in> set r"
    then have "fst q \<in> set (flat r)" using flat_mem [of "fst q" "snd q" r] by simp
    with gt show "e < fst q" by auto
  qed
  with "2.IH" [OF sr] se show ?case by auto
qed

lemma contiguous_regions_runs:
  assumes "c \<noteq> []"
  shows "\<exists>rs. contiguous_regions c = Inr rs \<and> runs_of c rs"
proof -
  have "even (length (edges False 0 c))" by (simp add: edges_length_parity)
  then obtain rs where rs: "reshape2 (edges False 0 c) = Some rs" "flat rs = edges False 0 c"
    using reshape2_even by blast
  have 1: "contiguous_regions c = Inr rs"
    using assms rs by (simp add: contiguous_regions_edges)
  have 2: "sorted_wrt (<) (flat rs)" by (simp add: rs edges_sorted)
  have 3: "\<forall>x \<in> set (flat rs). x \<le> length c"
    using edges_bounds [of _ False 0 c] by (auto simp: rs)
  have 4: "\<forall>i < length c. c ! i \<longleftrightarrow> (\<exists>(s, e) \<in> set rs. s \<le> i \<and> i < e)"
  proof (intro allI impI)
    fix i assume "i < length c"
    then have "odd (length (filter (\<lambda>e. e \<le> i) (edges False 0 c))) = c ! i"
      using edges_count [of 0 i c False] by simp
    then show "c ! i \<longleftrightarrow> (\<exists>(s, e) \<in> set rs. s \<le> i \<and> i < e)"
      using flat_count [OF 2, of i] by (simp add: rs)
  qed
  from 1 2 3 4 show ?thesis by (auto simp: runs_of_def)
qed

lemma runs_of_max_run:
  assumes "runs_of c rs" "(s, e) \<in> set rs"
  shows "is_max_run c s e"
proof -
  from assms have srt: "sorted_wrt (<) (flat rs)"
    and bnd: "\<forall>x \<in> set (flat rs). x \<le> length c"
    and cov: "\<forall>i < length c. c ! i \<longleftrightarrow> (\<exists>(s, e) \<in> set rs. s \<le> i \<and> i < e)"
    by (auto simp: runs_of_def)
  from flat_ordered [OF srt] have ord: "sorted_wrt (\<lambda>p q. snd p < fst q) rs"
    and lt: "\<forall>(s, e) \<in> set rs. s < e" by auto
  from lt assms(2) have se: "s < e" by auto
  from bnd assms(2) have en: "e \<le> length c" by (auto dest: flat_mem)
  have sep: "s' = s \<and> e' = e \<or> e' < s \<or> e < s'" if "(s', e') \<in> set rs" for s' e'
  proof -
    from ord have "\<forall>p \<in> set rs. \<forall>q \<in> set rs. p = q \<or> snd p < fst q \<or> snd q < fst p"
      by (induction rs) auto
    with that assms(2) show ?thesis by fastforce
  qed
  have inside: "c ! i" if "s \<le> i" "i < e" for i
  proof -
    from that en have "i < length c" by simp
    moreover from that assms(2) have "\<exists>(s, e) \<in> set rs. s \<le> i \<and> i < e" by auto
    ultimately show ?thesis using cov by simp
  qed
  have left: "s = 0 \<or> \<not> c ! (s - 1)"
  proof (cases "s = 0")
    case False
    have "\<not> c ! (s - 1)"
    proof
      assume "c ! (s - 1)"
      moreover have "s - 1 < length c" using se en by simp
      ultimately obtain s' e' where p: "(s', e') \<in> set rs" "s' \<le> s - 1" "s - 1 < e'"
        using cov by auto
      from sep [OF p(1)] p(2,3) False se show False by auto
    qed
    then show ?thesis ..
  qed simp
  have right: "e = length c \<or> \<not> c ! e"
  proof (cases "e = length c")
    case False
    have "\<not> c ! e"
    proof
      assume "c ! e"
      moreover have "e < length c" using False en by simp
      ultimately obtain s' e' where p: "(s', e') \<in> set rs" "s' \<le> e" "e < e'"
        using cov by auto
      from sep [OF p(1)] p(2,3) lt p(1) se show False by auto
    qed
    then show ?thesis ..
  qed simp
  from se en inside left right show ?thesis by (auto simp: is_max_run_def)
qed

lemma max_run_unique:
  assumes "is_max_run c s e" "is_max_run c s' e'" "s' \<le> i" "i < e'" "s \<le> i" "i < e"
  shows "s' = s \<and> e' = e"
proof -
  from assms(1) have A: "\<And>j. s \<le> j \<Longrightarrow> j < e \<Longrightarrow> c ! j" "s = 0 \<or> \<not> c ! (s - 1)"
    "e = length c \<or> \<not> c ! e" "e \<le> length c"
    by (auto simp: is_max_run_def)
  from assms(2) have B: "\<And>j. s' \<le> j \<Longrightarrow> j < e' \<Longrightarrow> c ! j" "s' = 0 \<or> \<not> c ! (s' - 1)"
    "e' = length c \<or> \<not> c ! e'" "e' \<le> length c"
    by (auto simp: is_max_run_def)
  have "\<not> s' < s"
  proof
    assume a: "s' < s"
    with assms have "c ! (s - 1)" by (intro B(1)) auto
    with a A(2) show False by auto
  qed
  moreover have "\<not> s < s'"
  proof
    assume a: "s < s'"
    with assms have "c ! (s' - 1)" by (intro A(1)) auto
    with a B(2) show False by auto
  qed
  moreover have "\<not> e < e'"
  proof
    assume a: "e < e'"
    with assms have "c ! e" by (intro B(1)) auto
    with a A(3) B(4) show False by auto
  qed
  moreover have "\<not> e' < e"
  proof
    assume a: "e' < e"
    with assms have "c ! e'" by (intro A(1)) auto
    with a B(3) A(4) show False by auto
  qed
  ultimately show ?thesis by auto
qed

lemma runs_of_complete:
  assumes "runs_of c rs" "is_max_run c s e"
  shows "(s, e) \<in> set rs"
proof -
  from assms(2) have "c ! s" "s < length c" "s < e" by (auto simp: is_max_run_def)
  with assms(1) obtain s' e' where p: "(s', e') \<in> set rs" "s' \<le> s" "s < e'"
    by (auto simp: runs_of_def)
  from runs_of_max_run [OF assms(1) p(1)] have "is_max_run c s' e'" .
  from max_run_unique [OF assms(2) this p(2,3) _ \<open>s < e\<close>] p(1) show ?thesis by simp
qed

lemma runs_of_ordered: "runs_of c rs \<Longrightarrow> sorted_wrt (\<lambda>p q. snd p < fst q) rs"
  using flat_ordered [of rs] by (simp add: runs_of_def)

section \<open>The loop of kdp_from_phidp\<close>

lemma norm_index_in: "0 \<le> i \<Longrightarrow> i < int n \<Longrightarrow> norm_index n i = Inr (nat i)"
  by (simp add: norm_index_def)

lemma kdp_step_in:
  assumes "0 \<le> L div 2" "L div 2 \<le> r" "r + L div 2 < int n"
  shows "kdp_step L n phidp r kdp =
           Inr (map (\<lambda>(p, k). k[nat r := kdp_value L p (nat r)]) (zip phidp kdp))"
proof -
  have a: "norm_index n (r + L div 2) = Inr (nat (r + L div 2))"
    using assms by (intro norm_index_in) linarith+
  have b: "norm_index n (r - L div 2) = Inr (nat (r - L div 2))"
    using assms by (intro norm_index_in) linarith+
  have c: "norm_index n r = Inr (nat r)"
    using assms by (intro norm_index_in) linarith+
  have d: "nat (r + L div 2) = nat r + nat (L div 2)" "nat (r - L div 2) = nat r - nat (L div 2)"
  proof -
    from assms have "0 \<le> r" by linarith
    with assms(1) show "nat (r + L div 2) = nat r + nat (L div 2)"
      by arith
    from assms(1,2) show "nat (r - L div 2) = nat r - nat (L div 2)"
      by arith
  qed
  show ?thesis
    by (simp add: kdp_step_def a b c d kdp_value_def)
qed

lemma kdp_loop_in:
  assumes "0 \<le> L div 2" "\<forall>r \<in> set rs. L div 2 \<le> r \<and> r + L div 2 < int n"
    "length kdp = length phidp"
  shows "kdp_loop L n phidp rs kdp =
           Inr (map (\<lambda>(p, k). foldl (\<lambda>k r. k[nat r := kdp_value L p (nat r)]) k rs) (zip phidp kdp))"
  using assms(2,3)
proof (induction rs arbitrary: kdp)
  case Nil
  then show ?case by (simp add: map_snd_zip [symmetric] case_prod_unfold del: map_snd_zip)
next
  case (Cons r rs)
  let ?k1 = "map (\<lambda>(p, k). k[nat r := kdp_value L p (nat r)]) (zip phidp kdp)"
  from Cons.prems have st: "kdp_step L n phidp r kdp = Inr ?k1"
    using assms(1) by (intro kdp_step_in) auto
  have len: "length ?k1 = length phidp" using Cons.prems by simp
  have z: "zip phidp ?k1 = map (\<lambda>(p, k). (p, k[nat r := kdp_value L p (nat r)])) (zip phidp kdp)"
    using Cons.prems(2) by (intro nth_equalityI) auto
  have "kdp_loop L n phidp (r # rs) kdp = kdp_loop L n phidp rs ?k1"
    by (simp add: st)
  also have "\<dots> = Inr (map (\<lambda>(p, k). foldl (\<lambda>k r. k[nat r := kdp_value L p (nat r)]) k rs)
                         (zip phidp ?k1))"
    using Cons.prems(1) by (intro Cons.IH [OF _ len]) simp
  also have "map (\<lambda>(p, k). foldl (\<lambda>k r. k[nat r := kdp_value L p (nat r)]) k rs) (zip phidp ?k1) =
      map (\<lambda>(p, k). foldl (\<lambda>k r. k[nat r := kdp_value L p (nat r)]) k (r # rs)) (zip phidp kdp)"
    unfolding z by (simp add: case_prod_unfold comp_def)
  finally show ?case .
qed

lemma foldl_update_length:
  "length (foldl (\<lambda>k r. k[nat r := g (nat r)]) k rs) = length k"
  by (induction rs arbitrary: k) auto

lemma foldl_update_nth:
  "i < length k \<Longrightarrow> \<forall>r \<in> set rs. 0 \<le> r \<Longrightarrow>
     foldl (\<lambda>k r. k[nat r := g (nat r)]) k rs ! i = (if int i \<in> set rs then g i else k ! i)"
proof (induction rs arbitrary: k)
  case Nil
  show ?case by simp
next
  case (Cons r rs)
  have "nat r = i \<longleftrightarrow> r = int i" using Cons.prems by auto
  with Cons show ?case by (auto simp: nth_list_update)
qed

lemma kdp_from_phidp_value:
  assumes "L mod 2 = 1" "0 < L" "shape phidp \<noteq> []"
  shows "kdp_from_phidp L phidp =
     Inr (phidp\<lparr>beams := map (\<lambda>p. map (\<lambda>r. if nat (L div 2) \<le> r \<and> r + nat (L div 2) < last (shape phidp)
                                             then kdp_value L p r else Val 0)
                                   [0..<last (shape phidp)]) (beams phidp)\<rparr>)"
proof -
  let ?n = "last (shape phidp)"
  let ?h = "L div 2"
  let ?rs = "[?h .. int ?n - ?h - 1]"
  let ?kdp = "map (\<lambda>b. replicate ?n (Val 0)) (beams phidp)"
  have h0: "0 \<le> ?h" using assms(2) by simp
  have rs: "\<forall>r \<in> set ?rs. ?h \<le> r \<and> r + ?h < int ?n" by auto
  have loop: "kdp_loop L ?n (beams phidp) ?rs ?kdp =
      Inr (map (\<lambda>(p, k). foldl (\<lambda>k r. k[nat r := kdp_value L p (nat r)]) k ?rs) (zip (beams phidp) ?kdp))"
    by (rule kdp_loop_in [OF h0 rs]) simp
  have zip: "zip (beams phidp) ?kdp = map (\<lambda>p. (p, replicate ?n (Val 0))) (beams phidp)"
    by (intro nth_equalityI) auto
  have row: "foldl (\<lambda>k r. k[nat r := kdp_value L p (nat r)]) (replicate ?n (Val 0)) ?rs =
      map (\<lambda>r. if nat ?h \<le> r \<and> r + nat ?h < ?n then kdp_value L p r else Val 0) [0..<?n]" for p
  proof (intro nth_equalityI)
    show "length (foldl (\<lambda>k r. k[nat r := kdp_value L p (nat r)]) (replicate ?n (Val 0)) ?rs) =
          length (map (\<lambda>r. if nat ?h \<le> r \<and> r + nat ?h < ?n then kdp_value L p r else Val 0) [0..<?n])"
      by (simp add: foldl_update_length)
  next
    fix i assume "i < length (foldl (\<lambda>k r. k[nat r := kdp_value L p (nat r)]) (replicate ?n (Val 0)) ?rs)"
    then have i: "i < ?n" by (simp add: foldl_update_length)
    have nn: "\<forall>r \<in> set ?rs. 0 \<le> r" using h0 by auto
    have "int i \<in> set ?rs \<longleftrightarrow> ?h \<le> int i \<and> int i + ?h < int ?n"
      by auto
    also have "\<dots> \<longleftrightarrow> nat ?h \<le> i \<and> i + nat ?h < ?n"
      using h0 by linarith
    finally have mem: "int i \<in> set ?rs \<longleftrightarrow> nat ?h \<le> i \<and> i + nat ?h < ?n" .
    have F: "foldl (\<lambda>k r. k[nat r := kdp_value L p (nat r)]) (replicate ?n (Val 0)) ?rs ! i =
       (if int i \<in> set ?rs then kdp_value L p i else replicate ?n (Val 0) ! i)"
      using i by (intro foldl_update_nth nn) simp
    from i show "foldl (\<lambda>k r. k[nat r := kdp_value L p (nat r)]) (replicate ?n (Val 0)) ?rs ! i =
          map (\<lambda>r. if nat ?h \<le> r \<and> r + nat ?h < ?n then kdp_value L p r else Val 0) [0..<?n] ! i"
      unfolding F mem by simp
  qed
  show ?thesis
    using assms(1,3) by (simp add: kdp_from_phidp_def Let_def loop zip comp_def row)
qed

text \<open>
  What the loop computes on the ramp \<open>phidp[r] = 2 r + 10\<close>, \<open>r = 0..99\<close>, with
  \<open>L = 7\<close>: the samples of the difference are \<open>2 (L/2) = 6\<close> gates apart and the
  divisor is \<open>2 L = 14\<close>.
\<close>

lemma kdp_ramp_beam:
  "kdp_from_phidp 7 (ramp 2 10 100) =
     Inr \<lparr>shape = [100],
          beams = [map (\<lambda>r. if 3 \<le> r \<and> r < 97 then Val (6 / 7) else Val 0) [0..<100]]\<rparr>"
proof -
  have h: "nat (7 div 2) = 3" by simp
  have "kdp_from_phidp 7 (ramp 2 10 100) =
     Inr ((ramp 2 10 100)\<lparr>beams := map (\<lambda>p. map (\<lambda>r. if nat (7 div 2) \<le> r \<and> r + nat (7 div 2) < last (shape (ramp 2 10 100))
                                             then kdp_value 7 p r else Val 0)
                                   [0..<last (shape (ramp 2 10 100))]) (beams (ramp 2 10 100))\<rparr>)"
    by (rule kdp_from_phidp_value) (simp_all add: ramp_def)
  moreover have "map (\<lambda>r. if nat (7 div 2) \<le> r \<and> r + nat (7 div 2) < 100
                          then kdp_value 7 (map (\<lambda>r. Val (2 * real r + 10)) [0..<100]) r else Val 0) [0..<100]
     = map (\<lambda>r. if 3 \<le> r \<and> r < 97 then Val (6 / 7) else Val 0) [0..<100]"
    unfolding h
  proof (rule map_cong [OF refl])
    fix r assume "r \<in> set [0..<100]"
    then have r: "r < 100" by simp
    show "(if 3 \<le> r \<and> r + 3 < 100 then kdp_value 7 (map (\<lambda>r. Val (2 * real r + 10)) [0..<100]) r else Val 0) =
        (if 3 \<le> r \<and> r < 97 then Val (6 / 7) else Val 0)"
    proof (cases "3 \<le> r \<and> r < 97")
      case True
      then have "real (r - 3) = real r - 3" by simp
      with True show ?thesis
        by (simp add: kdp_value_def del: upt_Suc)
    next
      case False
      then show ?thesis by auto
    qed
  qed
  ultimately show ?thesis by (simp add: ramp_def del: upt_Suc)
qed

section \<open>The loops of fill_phidp\<close>

lemma assign_slice_length: "length (assign_slice xs a b v) = length xs"
  by (simp add: assign_slice_def)

lemma assign_slice_nth:
  "i < length xs \<Longrightarrow> assign_slice xs a b v ! i = (if a \<le> i \<and> i < b then v else xs ! i)"
  by (simp add: assign_slice_def)

lemma slice_cong:
  assumes "length xs = length ys" "\<And>i. a \<le> i \<Longrightarrow> i < b \<Longrightarrow> i < length xs \<Longrightarrow> xs ! i = ys ! i"
  shows "slice xs a b = slice ys a b"
  unfolding slice_def
proof (rule nth_equalityI)
  show "length (take (b - a) (drop a xs)) = length (take (b - a) (drop a ys))"
    using assms(1) by simp
next
  fix i assume "i < length (take (b - a) (drop a xs))"
  then have "i < b - a" "a + i < length xs" by auto
  with assms show "take (b - a) (drop a xs) ! i = take (b - a) (drop a ys) ! i"
    by simp
qed

lemma fill_gap_length: "length (fill_gap margin g d) = length d"
  by (simp add: fill_gap_def Let_def assign_slice_length)

lemma fill_gap_outside:
  "i < length d \<Longrightarrow> i < fst g \<or> snd g \<le> i \<Longrightarrow> fill_gap margin g d ! i = d ! i"
  by (auto simp: fill_gap_def Let_def assign_slice_nth)

lemma fill_gap_inside:
  assumes "0 < g0" "g1 < length d" "g0 \<le> i" "i < g1"
  shows "fill_gap margin (g0, g1) d ! i =
     np_mean2 (nanmedian (slice d g1 (min (g1 + margin) (length d))))
              (nanmedian (slice d (g0 - margin) g0))"
proof -
  have "(if g0 < margin then 0 else g0 - margin) = g0 - margin" by simp
  moreover have "(if length d < g1 + margin then length d else g1 + margin) =
      min (g1 + margin) (length d)" by simp
  ultimately show ?thesis
    using assms by (simp add: fill_gap_def Let_def assign_slice_nth)
qed

lemma fill_gaps_length: "length (fill_gaps margin gs d) = length d"
  by (induction gs arbitrary: d) (simp_all add: fill_gap_length)

lemma fill_gaps_outside:
  "i < length d \<Longrightarrow> \<forall>g \<in> set gs. i < fst g \<or> snd g \<le> i \<Longrightarrow> fill_gaps margin gs d ! i = d ! i"
  by (induction gs arbitrary: d) (simp_all add: fill_gap_length fill_gap_outside)

lemma fill_gaps_append:
  "fill_gaps margin (gs @ hs) d = fill_gaps margin hs (fill_gaps margin gs d)"
  by (induction gs arbitrary: d) simp_all

lemma fill_beam_total:
  "\<exists>out. fill_beam margin d = Inr out \<and> length out = length d"
proof (cases "list_all isnan d")
  case True
  then show ?thesis by (simp add: fill_beam_def)
next
  case False
  then have "map isnan d \<noteq> []" by auto
  then obtain rs where "contiguous_regions (map isnan d) = Inr rs"
    using contiguous_regions_runs by blast
  with False show ?thesis by (simp add: fill_beam_def fill_gaps_length)
qed

lemma fill_beams_total:
  "\<exists>outs. fill_beams margin ds = Inr outs \<and> length outs = length ds \<and>
     (\<forall>b < length ds. fill_beam margin (ds ! b) = Inr (outs ! b))"
proof (induction ds)
  case Nil
  show ?case by simp
next
  case (Cons d ds)
  obtain out where out: "fill_beam margin d = Inr out"
    using fill_beam_total by blast
  from Cons obtain outs where outs: "fill_beams margin ds = Inr outs" "length outs = length ds"
    "\<forall>b < length ds. fill_beam margin (ds ! b) = Inr (outs ! b)" by blast
  show ?case
    using out outs by (auto simp: nth_Cons')
qed

lemma fill_phidp_total:
  assumes "shape data \<noteq> []" "0 < last (shape data)"
  shows "\<exists>outs. fill_phidp margin data = Inr (data\<lparr>beams := outs\<rparr>) \<and>
     length outs = length (beams data) \<and>
     (\<forall>b < length (beams data). fill_beam margin (beams data ! b) = Inr (outs ! b))"
proof -
  obtain outs where "fill_beams margin (beams data) = Inr outs" "length outs = length (beams data)"
    "\<forall>b < length (beams data). fill_beam margin (beams data ! b) = Inr (outs ! b)"
    using fill_beams_total by blast
  with assms show ?thesis by (auto simp: fill_phidp_def)
qed

lemma fill_beam_interior:
  assumes nn: "\<not> list_all isnan d" and run: "is_max_run (map isnan d) s e"
    and int: "0 < s" "e < length d" and out: "fill_beam margin d = Inr out"
    and r: "s \<le> r" "r < e"
  shows "out ! r = np_mean2 (nanmedian (slice d e (min (e + margin) (length d))))
                            (nanmedian (slice out (s - margin) s))"
proof -
  from nn have "map isnan d \<noteq> []" by auto
  then obtain rs where rs: "contiguous_regions (map isnan d) = Inr rs" "runs_of (map isnan d) rs"
    using contiguous_regions_runs by blast
  from out nn rs have o: "out = fill_gaps margin rs d" by (simp add: fill_beam_def)
  from runs_of_complete [OF rs(2) run] obtain pre post where sp: "rs = pre @ (s, e) # post"
    by (auto dest: split_list)
  have ord: "sorted_wrt (\<lambda>p q. snd p < fst q) rs" by (rule runs_of_ordered [OF rs(2)])
  from ord have pre: "\<forall>g \<in> set pre. snd g < s" and post: "\<forall>g \<in> set post. e < fst g"
    unfolding sp by (auto simp: sorted_wrt_append)
  let ?d1 = "fill_gaps margin pre d"
  let ?d2 = "fill_gap margin (s, e) ?d1"
  have o2: "out = fill_gaps margin post ?d2"
    unfolding o sp by (simp add: fill_gaps_append)
  have l1: "length ?d1 = length d" by (simp add: fill_gaps_length)
  have l2: "length ?d2 = length d" by (simp add: fill_gap_length l1)
  have lo: "length out = length d" by (simp add: o fill_gaps_length)
  have d1: "?d1 ! i = d ! i" if "s \<le> i" "i < length d" for i
    using that pre by (intro fill_gaps_outside) auto
  have od2: "out ! i = ?d2 ! i" if "i < e" "i < length d" for i
    unfolding o2 using that post l2 by (intro fill_gaps_outside) auto
  have d21: "?d2 ! i = ?d1 ! i" if "i < s" "i < length d" for i
    using that l1 by (intro fill_gap_outside) auto
  have "out ! r = ?d2 ! r" using r int by (intro od2) auto
  also have "\<dots> = np_mean2 (nanmedian (slice ?d1 e (min (e + margin) (length ?d1))))
                            (nanmedian (slice ?d1 (s - margin) s))"
    using int r l1 by (intro fill_gap_inside) auto
  also have "slice ?d1 e (min (e + margin) (length ?d1)) = slice d e (min (e + margin) (length d))"
    unfolding l1 using r by (intro slice_cong l1 d1) auto
  also have "slice ?d1 (s - margin) s = slice out (s - margin) s"
  proof (rule slice_cong)
    show "length ?d1 = length out" by (simp add: l1 lo)
  next
    fix i assume i: "s - margin \<le> i" "i < s" "i < length ?d1"
    then have "out ! i = ?d2 ! i" using r l1 by (intro od2) auto
    also have "\<dots> = ?d1 ! i" using i l1 by (intro d21) auto
    finally show "?d1 ! i = out ! i" by simp
  qed
  finally show ?thesis .
qed

lemma fill_beam_valid_unchanged:
  assumes "fill_beam margin d = Inr out" "i < length d" "\<not> isnan (d ! i)"
  shows "out ! i = d ! i"
proof -
  from assms(2,3) have nn: "\<not> list_all isnan d" by (auto simp: list_all_length)
  then have "map isnan d \<noteq> []" by auto
  then obtain rs where rs: "contiguous_regions (map isnan d) = Inr rs" "runs_of (map isnan d) rs"
    using contiguous_regions_runs by blast
  from assms(1) nn rs have o: "out = fill_gaps margin rs d" by (simp add: fill_beam_def)
  from rs(2) assms(2,3) have "\<not> (\<exists>(s, e) \<in> set rs. s \<le> i \<and> i < e)"
    by (simp add: runs_of_def)
  then have "\<forall>g \<in> set rs. i < fst g \<or> snd g \<le> i" by fastforce
  with assms(2) show ?thesis unfolding o by (intro fill_gaps_outside)
qed

section \<open>The two stages of linear_despeckle\<close>

lemma despeckle_window_length: "length (despeckle_window N d) = length d"
  by (simp add: despeckle_window_def Let_def)

lemma despeckle_window_nth:
  "i < length d \<Longrightarrow> despeckle_window N d ! i = NaN \<or> despeckle_window N d ! i = d ! i"
  by (simp add: despeckle_window_def Let_def)

lemma first_gate_length: "length (first_gate d) = length d"
  by (simp add: first_gate_def)

lemma first_gate_zero:
  "0 < length d \<Longrightarrow> first_gate d ! 0 = (if isnan (d ! 1) then NaN else d ! 0)"
  by (simp add: first_gate_def)

lemma first_gate_other: "0 < r \<Longrightarrow> first_gate d ! r = d ! r"
  by (simp add: first_gate_def)

lemma first_gate_nth: "i < length d \<Longrightarrow> first_gate d ! i = NaN \<or> first_gate d ! i = d ! i"
  by (cases i) (simp_all add: first_gate_def)

lemma linear_despeckle_ok:
  assumes "N = 3 \<or> N = 5" "shape data \<noteq> []" "2 \<le> last (shape data)"
  shows "linear_despeckle N data =
           Inr (data\<lparr>beams := map (first_gate \<circ> despeckle_window N) (beams data)\<rparr>)"
  using assms by (auto simp: linear_despeckle_def)

lemma np_roll_nth:
  assumes "i < length xs"
  shows "np_roll k xs ! i = xs ! nat ((int i - k) mod int (length xs))"
proof -
  let ?n = "int (length xs)"
  let ?s = "k mod ?n"
  from assms have n: "0 < ?n" by (cases xs) simp_all
  then have s: "0 \<le> ?s" "?s < ?n" by simp_all
  let ?m = "nat (?n - ?s)"
  have m: "?m \<le> length xs" "0 < ?m" using s by auto
  have eq: "(int i - k) mod ?n = (int i - ?s) mod ?n"
    by (simp add: mod_diff_right_eq)
  show ?thesis
  proof (cases "int i < ?s")
    case True
    then have "i < length (drop ?m xs)" using s by auto
    then have "np_roll k xs ! i = xs ! (?m + i)"
      using m by (simp add: np_roll_def Let_def nth_append)
    moreover have "(int i - ?s) mod ?n = int i - ?s + ?n"
    proof -
      have "(int i - ?s) mod ?n = (int i - ?s + ?n) mod ?n" by simp
      also have "\<dots> = int i - ?s + ?n"
        using True s assms by (intro mod_pos_pos_trivial) auto
      finally show ?thesis .
    qed
    moreover have "nat (int i - ?s + ?n) = ?m + i" using s True by auto
    ultimately show ?thesis by (simp add: eq)
  next
    case False
    then have ge: "\<not> i < length (drop ?m xs)" using s by auto
    have ld: "length (drop ?m xs) = nat ?s" using s by auto
    have "np_roll k xs = drop ?m xs @ take ?m xs" by (simp add: np_roll_def Let_def)
    then have "np_roll k xs ! i = take ?m xs ! (i - length (drop ?m xs))"
      using ge by (simp only: nth_append if_False)
    then have "np_roll k xs ! i = take ?m xs ! (i - nat ?s)" unfolding ld .
    also have "\<dots> = xs ! (i - nat ?s)"
      using False s assms by (intro nth_take) auto
    finally have "np_roll k xs ! i = xs ! (i - nat ?s)" .
    moreover have "(int i - ?s) mod ?n = int i - ?s"
      using False s assms by (intro mod_pos_pos_trivial) auto
    moreover have "nat (int i - ?s) = i - nat ?s" using s False by auto
    ultimately show ?thesis by (simp add: eq)
  qed
qed

lemma gate_bounds:
  assumes "i < n"
  shows "pred_gate n i < n" "succ_gate n i < n"
  using assms by (simp_all add: pred_gate_def succ_gate_def nat_less_iff)

lemma succ_pred_gate:
  assumes "i < n"
  shows "succ_gate n (pred_gate n i) = i" "pred_gate n (succ_gate n i) = i"
proof -
  from assms have n: "0 < int n" by simp
  have "(int (nat ((int i - 1) mod int n)) + 1) mod int n = ((int i - 1) mod int n + 1) mod int n"
    using n by simp
  also have "\<dots> = (int i - 1 + 1) mod int n" by (simp add: mod_add_left_eq)
  also have "\<dots> = int i" using assms by simp
  finally show "succ_gate n (pred_gate n i) = i" by (simp add: pred_gate_def succ_gate_def)
  have "(int (nat ((int i + 1) mod int n)) - 1) mod int n = ((int i + 1) mod int n - 1) mod int n"
    using n by simp
  also have "\<dots> = (int i + 1 - 1) mod int n" by (simp add: mod_diff_left_eq)
  also have "\<dots> = int i" using assms by simp
  finally show "pred_gate n (succ_gate n i) = i" by (simp add: pred_gate_def succ_gate_def)
qed

lemma valid_flags_nth:
  "j < length d \<Longrightarrow> valid_flags d ! j = (if isnan (d ! j) then 0 else 1)"
  by (simp add: valid_flags_def)

lemma despeckle_window3_nth:
  assumes "i < length d"
  shows "despeckle_window 3 d ! i =
     (if \<not> isnan (d ! i) \<and> isnan (d ! pred_gate (length d) i) \<and> isnan (d ! succ_gate (length d) i)
      then NaN else d ! i)"
proof -
  let ?n = "length d"
  let ?arr = "valid_flags d"
  have la: "length ?arr = ?n" by (simp add: valid_flags_def)
  have p: "np_roll 1 ?arr ! i = ?arr ! pred_gate ?n i"
    using assms np_roll_nth [of i ?arr 1] by (simp add: la pred_gate_def)
  have q: "np_roll (- 1) ?arr ! i = ?arr ! succ_gate ?n i"
    using assms np_roll_nth [of i ?arr "- 1"] by (simp add: la succ_gate_def)
  note b = gate_bounds [OF assms]
  have t: "window_count 3 d ! i =
      ?arr ! i + ?arr ! pred_gate ?n i + ?arr ! succ_gate ?n i"
    using assms by (simp add: window_count_def Let_def p q)
  show ?thesis
    using assms by (simp add: despeckle_window_def Let_def t valid_flags_nth b)
qed

lemma despeckle_window3_idem:
  "despeckle_window 3 (despeckle_window 3 d) = despeckle_window 3 d"
proof (rule nth_equalityI)
  show "length (despeckle_window 3 (despeckle_window 3 d)) = length (despeckle_window 3 d)"
    by (simp add: despeckle_window_length)
next
  fix i assume "i < length (despeckle_window 3 (despeckle_window 3 d))"
  then have i: "i < length d" by (simp add: despeckle_window_length)
  let ?n = "length d"
  let ?w = "despeckle_window 3 d"
  let ?p = "pred_gate ?n i" and ?q = "succ_gate ?n i"
  note b = gate_bounds [OF i]
  note sp = succ_pred_gate [OF i]
  have wi: "?w ! i = (if \<not> isnan (d ! i) \<and> isnan (d ! ?p) \<and> isnan (d ! ?q) then NaN else d ! i)"
    by (rule despeckle_window3_nth [OF i])
  have wp: "?w ! ?p = (if \<not> isnan (d ! ?p) \<and> isnan (d ! pred_gate ?n ?p) \<and> isnan (d ! i)
      then NaN else d ! ?p)"
    using despeckle_window3_nth [OF b(1)] by (simp add: sp)
  have wq: "?w ! ?q = (if \<not> isnan (d ! ?q) \<and> isnan (d ! i) \<and> isnan (d ! succ_gate ?n ?q)
      then NaN else d ! ?q)"
    using despeckle_window3_nth [OF b(2)] by (simp add: sp)
  have "despeckle_window 3 ?w ! i =
     (if \<not> isnan (?w ! i) \<and> isnan (?w ! ?p) \<and> isnan (?w ! ?q) then NaN else ?w ! i)"
    using despeckle_window3_nth [of i ?w] i by (simp add: despeckle_window_length)
  also have "\<dots> = ?w ! i"
    unfolding wi wp wq by auto
  finally show "despeckle_window 3 ?w ! i = ?w ! i" .
qed

lemma despeckle_beam3_fixed:
  assumes "first_gate (despeckle_window 3 d) = despeckle_window 3 d"
  shows "first_gate (despeckle_window 3 (first_gate (despeckle_window 3 d))) =
         first_gate (despeckle_window 3 d)"
  by (simp add: assms despeckle_window3_idem)

text \<open>
  On a beam of one gate the window test changes nothing, so the IndexError of
  \<open>np.take\<close> that follows it is raised on an array that is still the input.
\<close>

lemma despeckle_window_single: "N = 3 \<or> N = 5 \<Longrightarrow> despeckle_window N [x] = [x]"
  by (cases x) (auto simp: despeckle_window_def window_count_def valid_flags_def np_roll_def)

section \<open>texture on a slab\<close>

lemma np_roll_length: "length (np_roll k xs) = length xs"
  by (auto simp: np_roll_def Let_def)

lemma np_roll_set: "set (np_roll k xs) = set xs"
proof -
  have "set (drop m xs) \<union> set (take m xs) = set xs" for m
    by (metis Un_commute append_take_drop_id set_append)
  then show ?thesis by (simp add: np_roll_def Let_def)
qed

lemma texture_cell_nan: "texture_cell NaN xa = NaN"
  by (simp add: texture_cell_def Let_def)

lemma texture_num_const:
  "\<forall>x \<in> set xa. x = Val c \<Longrightarrow>
     foldl (\<lambda>num xarr. fadd num (fsquare (nan_to_zero (fsub (Val c) xarr)))) (Val 0) xa = Val 0"
  by (induction xa) simp_all

text \<open>With no valid neighbour the numerator is zero, so the count divides nothing else.\<close>

lemma texture_num_no_valid:
  "\<forall>x \<in> set xa. isnan x \<Longrightarrow>
     foldl (\<lambda>num xarr. fadd num (fsquare (nan_to_zero (fsub c xarr)))) (Val 0) xa = Val 0"
proof (induction xa)
  case Nil
  show ?case by simp
next
  case (Cons x xa)
  then have "x = NaN" by (cases x) simp_all
  with Cons show ?case by (cases c) simp_all
qed

lemma texture_cell_const:
  assumes "xa \<noteq> []" "\<forall>x \<in> set xa. x = Val c"
  shows "texture_cell (Val c) xa = Val 0"
proof -
  from assms have "filter (\<lambda>x. \<not> isnan x) xa = xa" by (auto simp: filter_id_conv)
  with assms(1) have "real (length (filter (\<lambda>x. \<not> isnan x) xa)) \<noteq> 0" by simp
  then show ?thesis
    using texture_num_const [OF assms(2)] by (simp add: texture_cell_def Let_def)
qed


lemma rect_roll_beams: "rect m n a \<Longrightarrow> rect m n (roll_beams k a)"
  by (simp add: rect_def roll_beams_def np_roll_length np_roll_set)

lemma rect_roll_gates: "rect m n a \<Longrightarrow> rect m n (roll_gates k a)"
  by (simp add: rect_def roll_gates_def np_roll_length)

lemma const_roll_beams:
  "\<forall>row \<in> set a. \<forall>x \<in> set row. x = v \<Longrightarrow> \<forall>row \<in> set (roll_beams k a). \<forall>x \<in> set row. x = v"
  by (simp add: roll_beams_def np_roll_set)

lemma const_roll_gates:
  "\<forall>row \<in> set a. \<forall>x \<in> set row. x = v \<Longrightarrow> \<forall>row \<in> set (roll_gates k a). \<forall>x \<in> set row. x = v"
  by (auto simp: roll_gates_def np_roll_set)

lemma rect_const_nth:
  fixes a :: "'a list list"
  assumes "rect m n a" "\<forall>row \<in> set a. \<forall>x \<in> set row. x = v" "i < m" "j < n"
  shows "a ! i ! j = v"
proof -
  from assms(1,3) have "a ! i \<in> set a" by (simp add: rect_def)
  moreover from this assms(1,4) have "a ! i ! j \<in> set (a ! i)" by (simp add: rect_def)
  ultimately show ?thesis using assms(2) by blast
qed

lemma texture2d_length: "length (texture2d data) = length data"
  by (simp add: texture2d_def Let_def)

lemma texture2d_nan:
  "i < length data \<Longrightarrow> j < length (data ! i) \<Longrightarrow> data ! i ! j = NaN \<Longrightarrow>
     texture2d data ! i ! j = NaN"
  by (simp add: texture2d_def Let_def texture_cell_nan)

lemma texture2d_row_length:
  "i < length data \<Longrightarrow> length (texture2d data ! i) = length (data ! i)"
  by (simp add: texture2d_def Let_def)

lemma texture2d_const:
  assumes r: "rect m n data" and c: "\<forall>row \<in> set data. \<forall>x \<in> set row. x = Val c"
  shows "texture2d data = replicate m (replicate n (Val 0))"
proof -
  note rb = rect_roll_beams and rg = rect_roll_gates
  note cb = const_roll_beams and cg = const_roll_gates
  have cell: "texture_cell (data ! i ! j)
      (map (\<lambda>xarr. xarr ! i ! j)
         [roll_beams 1 data, roll_gates 1 data, roll_beams (- 1) data, roll_gates (- 1) data,
          roll_gates 1 (roll_beams 1 data), roll_beams 1 (roll_gates (- 1) data),
          roll_gates (- 1) (roll_beams (- 1) data), roll_beams (- 1) (roll_gates 1 data)]) = Val 0"
    if ij: "i < m" "j < n" for i j
  proof -
    have "data ! i ! j = Val c" by (rule rect_const_nth [OF r c ij])
    moreover have "roll_beams 1 data ! i ! j = Val c"
      by (rule rect_const_nth [OF rb [OF r] cb [OF c] ij])
    moreover have "roll_gates 1 data ! i ! j = Val c"
      by (rule rect_const_nth [OF rg [OF r] cg [OF c] ij])
    moreover have "roll_beams (- 1) data ! i ! j = Val c"
      by (rule rect_const_nth [OF rb [OF r] cb [OF c] ij])
    moreover have "roll_gates (- 1) data ! i ! j = Val c"
      by (rule rect_const_nth [OF rg [OF r] cg [OF c] ij])
    moreover have "roll_gates 1 (roll_beams 1 data) ! i ! j = Val c"
      by (rule rect_const_nth [OF rg [OF rb [OF r]] cg [OF cb [OF c]] ij])
    moreover have "roll_beams 1 (roll_gates (- 1) data) ! i ! j = Val c"
      by (rule rect_const_nth [OF rb [OF rg [OF r]] cb [OF cg [OF c]] ij])
    moreover have "roll_gates (- 1) (roll_beams (- 1) data) ! i ! j = Val c"
      by (rule rect_const_nth [OF rg [OF rb [OF r]] cg [OF cb [OF c]] ij])
    moreover have "roll_beams (- 1) (roll_gates 1 data) ! i ! j = Val c"
      by (rule rect_const_nth [OF rb [OF rg [OF r]] cb [OF cg [OF c]] ij])
    ultimately show ?thesis by (simp add: texture_cell_const)
  qed
  from r have lens: "length data = m" "\<And>i. i < m \<Longrightarrow> length (data ! i) = n"
    by (auto simp: rect_def)
  show ?thesis
  proof (rule nth_equalityI)
    show "length (texture2d data) = length (replicate m (replicate n (Val 0)))"
      by (simp add: texture2d_length lens)
  next
    fix i assume "i < length (texture2d data)"
    then have i: "i < m" by (simp add: texture2d_length lens)
    show "texture2d data ! i = replicate m (replicate n (Val 0)) ! i"
    proof (rule nth_equalityI)
      show "length (texture2d data ! i) = length (replicate m (replicate n (Val 0)) ! i)"
        using i lens by (simp add: texture2d_row_length)
    next
      fix j assume "j < length (texture2d data ! i)"
      then have j: "j < n" using i lens by (simp add: texture2d_row_length)
      from cell [OF i j] i j lens
      show "texture2d data ! i ! j = replicate m (replicate n (Val 0)) ! i ! j"
        by (simp add: texture2d_def Let_def)
    qed
  qed
qed


lemma concat_uniform_length:
  "\<forall>x \<in> set xss. length x = m \<Longrightarrow> length (concat xss) = length xss * m"
  by (induction xss) simp_all

lemma concat_uniform_nth:
  "\<forall>x \<in> set xss. length x = m \<Longrightarrow> k < length xss \<Longrightarrow> i < m \<Longrightarrow>
     concat xss ! (k * m + i) = xss ! k ! i"
proof (induction xss arbitrary: k)
  case Nil
  then show ?case by simp
next
  case (Cons x xss)
  show ?case
  proof (cases k)
    case 0
    with Cons.prems show ?thesis by (simp add: nth_append)
  next
    case (Suc k')
    with Cons.prems have "concat xss ! (k' * m + i) = xss ! k' ! i"
      by (intro Cons.IH) auto
    moreover have "(x @ concat xss) ! (m + (k' * m + i)) = concat xss ! (k' * m + i)"
      using Cons.prems(1) by (simp add: nth_append)
    ultimately show ?thesis using Suc by (simp add: add.assoc)
  qed
qed

lemma prod_list_butlast: "xs \<noteq> [] \<Longrightarrow> prod_list xs = prod_list (butlast xs) * (last xs :: nat)"
  by (induction xs) auto

lemma split_slabs_props:
  assumes "length bs = q * nb" "0 < nb"
  shows "length (split_slabs nb bs) = q"
    and "\<And>k. k < q \<Longrightarrow> length (split_slabs nb bs ! k) = nb"
    and "\<And>k i. k < q \<Longrightarrow> i < nb \<Longrightarrow> split_slabs nb bs ! k ! i = bs ! (k * nb + i)"
proof -
  show l: "length (split_slabs nb bs) = q" using assms by (simp add: split_slabs_def)
  have fit: "k * nb + nb \<le> length bs" if "k < q" for k
  proof -
    from that have "Suc k \<le> q" by simp
    then have "Suc k * nb \<le> q * nb" by (rule mult_le_mono1)
    then show ?thesis by (simp add: assms(1))
  qed
  show "length (split_slabs nb bs ! k) = nb" if "k < q" for k
    using that fit [OF that] assms by (simp add: split_slabs_def)
  show "split_slabs nb bs ! k ! i = bs ! (k * nb + i)" if "k < q" "i < nb" for k i
    using that fit [OF that(1)] assms by (simp add: split_slabs_def)
qed

lemma texture_beam:
  assumes wf: "wf_array data" and dims: "2 \<le> length (shape data)"
    and pos: "0 < last (butlast (shape data))" "0 < last (shape data)"
    and b: "b < length (beams data)"
  shows "\<exists>out slab i. texture data = Inr out \<and> shape out = shape data \<and>
     length (beams out) = length (beams data) \<and>
     beams out ! b = texture2d slab ! i \<and> i < length slab \<and> slab ! i = beams data ! b \<and>
     rect (last (butlast (shape data))) (last (shape data)) slab \<and> set slab \<subseteq> set (beams data)"
proof -
  let ?nb = "last (butlast (shape data))"
  let ?n = "last (shape data)"
  let ?bs = "beams data"
  let ?q = "prod_list (butlast (butlast (shape data)))"
  let ?slabs = "split_slabs ?nb ?bs"
  let ?out = "data\<lparr>beams := concat (map texture2d ?slabs)\<rparr>"
  from dims have ne: "butlast (shape data) \<noteq> []" by (cases "shape data") auto
  from wf have len: "length ?bs = ?q * ?nb"
    by (simp add: wf_array_def prod_list_butlast [OF ne])
  note sp = split_slabs_props [OF len pos(1)]
  have o: "texture data = Inr ?out"
    using dims pos by (simp add: texture_def)
  have ul: "\<forall>x \<in> set (map texture2d ?slabs). length x = ?nb"
    using sp(1,2) by (auto simp: in_set_conv_nth texture2d_length)
  have lo: "length (beams ?out) = length ?bs"
    using concat_uniform_length [OF ul] sp(1) len by simp
  let ?k = "b div ?nb" and ?i = "b mod ?nb"
  have i: "?i < ?nb" using pos(1) by simp
  have k: "?k < ?q" using b len pos(1) by (simp add: less_mult_imp_div_less)
  have bb: "?k * ?nb + ?i = b" by simp
  have "concat (map texture2d ?slabs) ! (?k * ?nb + ?i) = map texture2d ?slabs ! ?k ! ?i"
    using k i sp(1) by (intro concat_uniform_nth [OF ul]) auto
  then have row: "beams ?out ! b = texture2d (?slabs ! ?k) ! ?i"
    using k sp(1) by (simp add: bb)
  have il: "?i < length (?slabs ! ?k)" using i sp(2) [OF k] by simp
  have sb: "?slabs ! ?k ! ?i = ?bs ! b" using sp(3) [OF k i] by (simp add: bb)
  have sub: "set (?slabs ! ?k) \<subseteq> set ?bs"
    using k sp(1) by (auto simp: split_slabs_def dest: in_set_takeD in_set_dropD)
  have "\<forall>row \<in> set ?bs. length row = ?n" using wf by (simp add: wf_array_def list_all_iff)
  with sub sp(2) [OF k] have re: "rect ?nb ?n (?slabs ! ?k)" by (auto simp: rect_def)
  from o lo row il sb re sub show ?thesis
    by (intro exI [of _ ?out] exI [of _ "?slabs ! ?k"] exI [of _ ?i]) simp
qed

section \<open>The unfolding stage\<close>

lemma unfold_mismatch:
  assumes "shape rho \<noteq> shape p"
  shows "unfold_phi f medfilt p rho w = Inl AssertionError"
    and "unfold_phi_naive medfilt p rho w = Inl AssertionError"
  using assms by (simp_all add: unfold_phi_def unfold_phi_naive_def unfold_prepare_def)

lemma unwrap_gate_near: "p ! k = Val a \<Longrightarrow> ref = Val b \<Longrightarrow> \<not> a - b < - 80 \<Longrightarrow> unwrap_gate ref k p = p"
  by (simp add: unwrap_gate_def)

text \<open>The search leaves \<open>j\<close> unbound only when its range is empty.\<close>

lemma onset_search_bound:
  "onset_search stdarr rho width js j = None \<Longrightarrow> js = [] \<and> j = None"
  by (induction js arbitrary: j) (auto split: if_splits)

section \<open>Claims\<close>

text \<open>
  C8. contiguous_regions maps a boolean sequence that is not empty to the list, in
  increasing order, of the half-open index pairs \<open>[s, e)\<close> of its maximal runs of True,
  runs that touch either end included; on \<open>[T,F,F,T,T,F,T]\<close> it returns
  \<open>[[0,1],[3,5],[6,7]]\<close>.  (On the empty sequence \<open>condition[0]\<close> is an IndexError.)
\<close>

theorem contiguous_regions_maximal_runs:
  "condition \<noteq> [] \<Longrightarrow>
     (\<exists>rs. contiguous_regions condition = Inr rs \<and>
           sorted_wrt (\<lambda>p q. snd p < fst q) rs \<and>
           set rs = {(s, e). is_max_run condition s e}) \<and>
     contiguous_regions [True, False, False, True, True, False, True] =
       Inr [(0, 1), (3, 5), (6, 7)]"
proof -
  assume "condition \<noteq> []"
  then obtain rs where rs: "contiguous_regions condition = Inr rs" "runs_of condition rs"
    using contiguous_regions_runs by blast
  have "set rs = {(s, e). is_max_run condition s e}"
    using runs_of_max_run [OF rs(2)] runs_of_complete [OF rs(2)] by auto
  moreover have "contiguous_regions [True, False, False, True, True, False, True] =
       Inr [(0, 1), (3, 5), (6, 7)]"
    by code_simp
  ultimately show ?thesis using rs runs_of_ordered [OF rs(2)] by blast
qed

theorem contiguous_regions_maximal_runs_witness:
  "[True, True, False] \<noteq> [] \<and>
     (\<exists>rs. contiguous_regions [True, True, False] = Inr rs \<and>
           sorted_wrt (\<lambda>p q. snd p < fst q) rs \<and>
           set rs = {(s, e). is_max_run [True, True, False] s e}) \<and>
     contiguous_regions [True, False, False, True, True, False, True] =
       Inr [(0, 1), (3, 5), (6, 7)]"
proof -
  have h: "[True, True, False] \<noteq> []" by simp
  show ?thesis using h contiguous_regions_maximal_runs [OF h] by blast
qed

text \<open>
  C2. For an array whose last axis has length n and an odd window length L,
  kdp_from_phidp returns an array of the same shape; at an interior gate r with
  \<open>L/2 \<le> r < n - L/2\<close> (integer division) its value is
  \<open>(phidp[r+L/2] - phidp[r-L/2]) / (2L)\<close>, and at every gate within \<open>L/2\<close> of either
  end it is zero.  L is a window length, a positive number of gates.
\<close>

theorem kdp_from_phidp_window:
  assumes "wf_array phidp" "L mod 2 = 1" "0 < L"
  shows "\<exists>kdp. kdp_from_phidp L phidp = Inr kdp \<and> shape kdp = shape phidp \<and> wf_array kdp \<and>
     (\<forall>b < length (beams phidp). \<forall>r < last (shape phidp).
        beams kdp ! b ! r =
          (if nat (L div 2) \<le> r \<and> r < last (shape phidp) - nat (L div 2)
           then fdiv (fsub (beams phidp ! b ! (r + nat (L div 2)))
                           (beams phidp ! b ! (r - nat (L div 2)))) (real_of_int (2 * L))
           else Val 0))"
proof -
  let ?n = "last (shape phidp)"
  let ?row = "\<lambda>p. map (\<lambda>r. if nat (L div 2) \<le> r \<and> r + nat (L div 2) < ?n
                             then kdp_value L p r else Val 0) [0..<?n]"
  let ?kdp = "phidp\<lparr>beams := map ?row (beams phidp)\<rparr>"
  from assms(1) have ne: "shape phidp \<noteq> []" by (simp add: wf_array_def)
  have 1: "kdp_from_phidp L phidp = Inr ?kdp"
    by (rule kdp_from_phidp_value [OF assms(2,3) ne])
  have 2: "wf_array ?kdp"
    using assms(1) by (simp add: wf_array_def list_all_iff)
  have 3: "beams ?kdp ! b ! r =
          (if nat (L div 2) \<le> r \<and> r < ?n - nat (L div 2)
           then fdiv (fsub (beams phidp ! b ! (r + nat (L div 2)))
                           (beams phidp ! b ! (r - nat (L div 2)))) (real_of_int (2 * L))
           else Val 0)" if "b < length (beams phidp)" "r < ?n" for b r
  proof -
    have "(r + nat (L div 2) < ?n) = (r < ?n - nat (L div 2))" by auto
    with that show ?thesis by (simp add: kdp_value_def)
  qed
  from 1 2 3 show ?thesis by (intro exI [of _ ?kdp]) simp
qed

theorem kdp_from_phidp_window_witness:
  "wf_array (ramp 1 0 4) \<and> (3::int) mod 2 = 1 \<and> (0::int) < 3 \<and>
   (\<exists>kdp. kdp_from_phidp 3 (ramp 1 0 4) = Inr kdp \<and> shape kdp = shape (ramp 1 0 4) \<and> wf_array kdp \<and>
     (\<forall>b < length (beams (ramp 1 0 4)). \<forall>r < last (shape (ramp 1 0 4)).
        beams kdp ! b ! r =
          (if nat (3 div 2) \<le> r \<and> r < last (shape (ramp 1 0 4)) - nat (3 div 2)
           then fdiv (fsub (beams (ramp 1 0 4) ! b ! (r + nat (3 div 2)))
                           (beams (ramp 1 0 4) ! b ! (r - nat (3 div 2)))) (real_of_int (2 * 3))
           else Val 0)))"
proof -
  have h1: "wf_array (ramp 1 0 4)" by (simp add: wf_array_def ramp_def)
  have h2: "(3::int) mod 2 = 1" by simp
  have h3: "(0::int) < 3" by simp
  show ?thesis using h1 h2 h3 kdp_from_phidp_window [OF h1 h2 h3] by blast
qed

text \<open>
  C1, as the spec states it, fails: on the ramp \<open>phidp[r] = 2 r + 10\<close>, \<open>r = 0..99\<close>,
  with \<open>L = 7\<close>, gate 3, which the claim counts as an edge gate, is not zero: the loop
  runs over \<open>L/2 \<le> r < n - L/2\<close>.  Nor is the value at gate 7 the half slope 1 (the
  samples are 6 gates apart and the difference is divided by 14).
\<close>

theorem kdp_ramp_not_one:
  "result_gate (kdp_from_phidp 7 (ramp 2 10 100)) 0 7 \<noteq> Some (Val 1) \<and>
   result_gate (kdp_from_phidp 7 (ramp 2 10 100)) 0 3 \<noteq> Some (Val 0)"
proof -
  have "kdp_from_phidp 7 (ramp 2 10 100) =
     Inr ((ramp 2 10 100)\<lparr>beams := map (\<lambda>p. map (\<lambda>r. if nat (7 div 2) \<le> r \<and> r + nat (7 div 2) < last (shape (ramp 2 10 100))
                                             then kdp_value 7 p r else Val 0)
                                   [0..<last (shape (ramp 2 10 100))]) (beams (ramp 2 10 100))\<rparr>)"
    by (rule kdp_from_phidp_value) (simp_all add: ramp_def)
  then show ?thesis
    by (simp add: result_gate_def ramp_def kdp_value_def)
qed

text \<open>
  C1, amended. On that ramp with \<open>L = 7\<close>, kdp_from_phidp returns one beam of 100 gates
  that holds one constant, which is not zero, at every interior gate r with
  \<open>3 \<le> r < 97\<close> (\<open>L/2 = 3\<close>), and 0 at every edge gate outside that interval.
\<close>

theorem kdp_ramp_interior:
  "\<exists>v. v \<noteq> Val 0 \<and>
     kdp_from_phidp 7 (ramp 2 10 100) =
       Inr \<lparr>shape = [100],
            beams = [map (\<lambda>r. if 3 \<le> r \<and> r < 97 then v else Val 0) [0..<100]]\<rparr>"
proof -
  have "Val (6 / 7) \<noteq> Val 0" by simp
  with kdp_ramp_beam show ?thesis by blast
qed

text \<open>
  C6, as the spec states it, fails when an earlier gap lies within the left margin: on
  \<open>[1, NaN, 5, NaN, 9]\<close> with \<open>margin = 3\<close> the gap \<open>[3, 4)\<close> is filled with 13/2, the
  mean of 9 and the median 4 of \<open>[1, 4, 5]\<close>, where 4 is the fill of the gap \<open>[1, 2)\<close>;
  the medians of the margin samples of the input, 3 and 9, have the mean 6.
\<close>

theorem fill_phidp_left_margin_refilled:
  "result_gate (fill_phidp 3 near_gaps) 0 3 = Some (Val (13 / 2)) \<and>
   np_mean2 (nanmedian (slice (beams near_gaps ! 0) 4 (4 + 3)))
            (nanmedian (slice (beams near_gaps ! 0) (3 - 3) 3)) = Val 6"
  unfolding near_gaps_def by code_simp

text \<open>
  C6, amended. In a beam with at least one valid sample, fill_phidp fills every interior
  gap \<open>[s, e)\<close> (a maximal run of NaN that touches neither end) with one constant, so
  the filled region is flat: the mean of the median of the valid samples among the
  \<open>margin\<close> gates right of the gap and the median of the \<open>margin\<close> gates left of it as
  they stand when the gap is reached, that is with the gaps before it filled.  Where the
  gates left of the gap hold no NaN in the input, these are the samples of the input.
\<close>

theorem fill_phidp_interior_gap:
  assumes "wf_array data" "b < length (beams data)" "\<not> list_all isnan (beams data ! b)"
    and "is_max_run (map isnan (beams data ! b)) s e" "0 < s" "e < last (shape data)"
  shows "\<exists>out. fill_phidp margin data = Inr out \<and> shape out = shape data \<and>
     (\<forall>r. s \<le> r \<and> r < e \<longrightarrow>
        beams out ! b ! r =
          np_mean2 (nanmedian (slice (beams data ! b) e (min (e + margin) (last (shape data)))))
                   (nanmedian (slice (beams out ! b) (s - margin) s))) \<and>
     ((\<forall>i. s - margin \<le> i \<and> i < s \<longrightarrow> \<not> isnan (beams data ! b ! i)) \<longrightarrow>
        slice (beams out ! b) (s - margin) s = slice (beams data ! b) (s - margin) s)"
proof -
  let ?d = "beams data ! b"
  from assms(1,2) have len: "length ?d = last (shape data)" and ne: "shape data \<noteq> []"
    by (auto simp: wf_array_def list_all_length)
  from assms(6) have pos: "0 < last (shape data)" by simp
  from fill_phidp_total [OF ne pos, of margin] assms(2) obtain outs where
    o: "fill_phidp margin data = Inr (data\<lparr>beams := outs\<rparr>)"
    and ob: "fill_beam margin ?d = Inr (outs ! b)" by blast
  obtain out' where "fill_beam margin ?d = Inr out'" "length out' = length ?d"
    using fill_beam_total by blast
  with ob have lo: "length (outs ! b) = length ?d" by simp
  have 1: "outs ! b ! r =
          np_mean2 (nanmedian (slice ?d e (min (e + margin) (last (shape data)))))
                   (nanmedian (slice (outs ! b) (s - margin) s))" if "s \<le> r" "r < e" for r
    using fill_beam_interior [OF assms(3,4,5) _ ob that] assms(6) by (simp add: len)
  have 2: "slice (outs ! b) (s - margin) s = slice ?d (s - margin) s"
    if v: "\<forall>i. s - margin \<le> i \<and> i < s \<longrightarrow> \<not> isnan (?d ! i)"
  proof (rule slice_cong [OF lo])
    fix i assume "s - margin \<le> i" "i < s" "i < length (outs ! b)"
    with v lo show "outs ! b ! i = ?d ! i"
      by (intro fill_beam_valid_unchanged [OF ob]) auto
  qed
  from o 1 2 show ?thesis by (intro exI [of _ "data\<lparr>beams := outs\<rparr>"]) simp
qed

theorem fill_phidp_interior_gap_witness:
  "wf_array gap_example \<and> 0 < length (beams gap_example) \<and>
   \<not> list_all isnan (beams gap_example ! 0) \<and>
   is_max_run (map isnan (beams gap_example ! 0)) 2 4 \<and> (0::nat) < 2 \<and>
   4 < last (shape gap_example) \<and>
   (\<exists>out. fill_phidp 3 gap_example = Inr out \<and> shape out = shape gap_example \<and>
     (\<forall>r. 2 \<le> r \<and> r < 4 \<longrightarrow>
        beams out ! 0 ! r =
          np_mean2 (nanmedian (slice (beams gap_example ! 0) 4 (min (4 + 3) (last (shape gap_example)))))
                   (nanmedian (slice (beams out ! 0) (2 - 3) 2))) \<and>
     ((\<forall>i. 2 - 3 \<le> i \<and> i < 2 \<longrightarrow> \<not> isnan (beams gap_example ! 0 ! i)) \<longrightarrow>
        slice (beams out ! 0) (2 - 3) 2 = slice (beams gap_example ! 0) (2 - 3) 2))"
proof -
  have h1: "wf_array gap_example" by (simp add: wf_array_def gap_example_def)
  have h2: "0 < length (beams gap_example)" by (simp add: gap_example_def)
  have h3: "\<not> list_all isnan (beams gap_example ! 0)" by (simp add: gap_example_def)
  have h4: "is_max_run (map isnan (beams gap_example ! 0)) 2 4"
    by (auto simp: is_max_run_def gap_example_def nth_Cons')
  have h5: "(0::nat) < 2" by simp
  have h6: "4 < last (shape gap_example)" by (simp add: gap_example_def)
  from fill_phidp_interior_gap [OF h1 h2 h3 h4 h5 h6, of 3] h1 h2 h3 h4 h5 h6
  show ?thesis by blast
qed

text \<open>
  C7. fill_phidp raises no error, and a beam of length \<open>n > 0\<close> whose samples are all NaN
  comes back as n zeros.
\<close>

theorem fill_phidp_all_invalid_beam:
  assumes "wf_array data" "0 < last (shape data)" "b < length (beams data)"
    and "list_all isnan (beams data ! b)"
  shows "\<exists>out. fill_phidp margin data = Inr out \<and> shape out = shape data \<and>
     length (beams out) = length (beams data) \<and>
     beams out ! b = replicate (last (shape data)) (Val 0)"
proof -
  let ?d = "beams data ! b"
  from assms(1,3) have len: "length ?d = last (shape data)" and ne: "shape data \<noteq> []"
    by (auto simp: wf_array_def list_all_length)
  from fill_phidp_total [OF ne assms(2), of margin] assms(3) obtain outs where
    o: "fill_phidp margin data = Inr (data\<lparr>beams := outs\<rparr>)" "length outs = length (beams data)"
    and ob: "fill_beam margin ?d = Inr (outs ! b)" by blast
  from ob assms(4) have "outs ! b = replicate (last (shape data)) (Val 0)"
    by (simp add: fill_beam_def len)
  with o show ?thesis by (intro exI [of _ "data\<lparr>beams := outs\<rparr>"]) simp
qed

theorem fill_phidp_all_invalid_beam_witness:
  "wf_array gap_example \<and> 0 < last (shape gap_example) \<and> 1 < length (beams gap_example) \<and>
   list_all isnan (beams gap_example ! 1) \<and>
   (\<exists>out. fill_phidp 3 gap_example = Inr out \<and> shape out = shape gap_example \<and>
     length (beams out) = length (beams gap_example) \<and>
     beams out ! 1 = replicate (last (shape gap_example)) (Val 0))"
proof -
  have h1: "wf_array gap_example" by (simp add: wf_array_def gap_example_def)
  have h2: "0 < last (shape gap_example)" by (simp add: gap_example_def)
  have h3: "1 < length (beams gap_example)" by (simp add: gap_example_def)
  have h4: "list_all isnan (beams gap_example ! 1)" by (simp add: gap_example_def)
  from fill_phidp_all_invalid_beam [OF h1 h2 h3 h4, of 3] h1 h2 h3 h4
  show ?thesis by blast
qed

text \<open>
  C10. After linear_despeckle, for both widths, gate 0 of a beam is NaN whenever gate 1 of
  that beam is NaN in the output: gate 0 is set to NaN exactly on the validity of gate 1
  after the window test, whatever the window count at gate 0, and every other gate is what
  the window test left.
\<close>

theorem linear_despeckle_first_gate:
  assumes "wf_array data" "N = 3 \<or> N = 5" "2 \<le> last (shape data)" "b < length (beams data)"
  shows "\<exists>out. linear_despeckle N data = Inr out \<and> shape out = shape data \<and>
     (isnan (beams out ! b ! 1) \<longrightarrow> isnan (beams out ! b ! 0)) \<and>
     beams out ! b ! 0 =
       (if isnan (despeckle_window N (beams data ! b) ! 1) then NaN
        else despeckle_window N (beams data ! b) ! 0) \<and>
     (\<forall>r. 0 < r \<and> r < last (shape data) \<longrightarrow>
        beams out ! b ! r = despeckle_window N (beams data ! b) ! r)"
proof -
  let ?w = "despeckle_window N (beams data ! b)"
  let ?out = "data\<lparr>beams := map (first_gate \<circ> despeckle_window N) (beams data)\<rparr>"
  from assms(1,4) have len: "length (beams data ! b) = last (shape data)" and ne: "shape data \<noteq> []"
    by (auto simp: wf_array_def list_all_length)
  have o: "linear_despeckle N data = Inr ?out"
    by (rule linear_despeckle_ok [OF assms(2) ne assms(3)])
  have row: "beams ?out ! b = first_gate ?w" using assms(4) by simp
  have lw: "0 < length ?w" using len assms(3) by (simp add: despeckle_window_length)
  have z: "beams ?out ! b ! 0 = (if isnan (?w ! 1) then NaN else ?w ! 0)"
    unfolding row by (rule first_gate_zero [OF lw])
  have oth: "beams ?out ! b ! r = ?w ! r" if "0 < r" for r
    unfolding row using that by (rule first_gate_other)
  have one: "beams ?out ! b ! 1 = ?w ! 1" by (rule oth) simp
  have imp: "isnan (beams ?out ! b ! 1) \<longrightarrow> isnan (beams ?out ! b ! 0)"
    unfolding z one by simp
  have sh: "shape ?out = shape data" by simp
  from o sh imp z oth show ?thesis by blast
qed

theorem linear_despeckle_first_gate_witness:
  "wf_array speckle3 \<and> ((3::nat) = 3 \<or> (3::nat) = 5) \<and> 2 \<le> last (shape speckle3) \<and>
   0 < length (beams speckle3) \<and>
   (\<exists>out. linear_despeckle 3 speckle3 = Inr out \<and> shape out = shape speckle3 \<and>
     (isnan (beams out ! 0 ! 1) \<longrightarrow> isnan (beams out ! 0 ! 0)) \<and>
     beams out ! 0 ! 0 =
       (if isnan (despeckle_window 3 (beams speckle3 ! 0) ! 1) then NaN
        else despeckle_window 3 (beams speckle3 ! 0) ! 0) \<and>
     (\<forall>r. 0 < r \<and> r < last (shape speckle3) \<longrightarrow>
        beams out ! 0 ! r = despeckle_window 3 (beams speckle3 ! 0) ! r))"
proof -
  have h1: "wf_array speckle3" by (simp add: wf_array_def speckle3_def)
  have h2: "(3::nat) = 3 \<or> (3::nat) = 5" by simp
  have h3: "2 \<le> last (shape speckle3)" by (simp add: speckle3_def)
  have h4: "0 < length (beams speckle3)" by (simp add: speckle3_def)
  from linear_despeckle_first_gate [OF h1 h2 h3 h4] h1 h2 h3 h4
  show ?thesis by blast
qed

text \<open>
  C5, as the spec states it, fails for both widths: a second application removes a sample
  that the first one kept.
\<close>

theorem linear_despeckle_not_idempotent:
  "linear_despeckle 3 speckle3 = Inr \<lparr>shape = [4], beams = [[NaN, NaN, NaN, Val 1]]\<rparr> \<and>
   linear_despeckle 3 \<lparr>shape = [4], beams = [[NaN, NaN, NaN, Val 1]]\<rparr> =
     Inr \<lparr>shape = [4], beams = [[NaN, NaN, NaN, NaN]]\<rparr> \<and>
   linear_despeckle 5 speckle5 =
     Inr \<lparr>shape = [8], beams = [[NaN, Val 1, NaN, NaN, NaN, NaN, NaN, NaN]]\<rparr> \<and>
   linear_despeckle 5 \<lparr>shape = [8], beams = [[NaN, Val 1, NaN, NaN, NaN, NaN, NaN, NaN]]\<rparr> =
     Inr \<lparr>shape = [8], beams = [[NaN, NaN, NaN, NaN, NaN, NaN, NaN, NaN]]\<rparr>"
  unfolding speckle3_def speckle5_def by code_simp

text \<open>
  C5, amended. Despeckling is not idempotent, but a second application only invalidates:
  both applications succeed with the shape of the input, and at every position the
  result of each is NaN or the sample it was given.  For \<open>N = 3\<close> the two results are
  equal whenever the first-gate rule of the first application changed nothing, that is
  when its result is what the window test alone gives.
\<close>

theorem linear_despeckle_twice:
  assumes "wf_array data" "N = 3 \<or> N = 5" "2 \<le> last (shape data)"
  shows "\<exists>once twice. linear_despeckle N data = Inr once \<and> linear_despeckle N once = Inr twice \<and>
     shape once = shape data \<and> shape twice = shape data \<and> wf_array once \<and> wf_array twice \<and>
     (\<forall>b < length (beams data). \<forall>r < last (shape data).
        (beams once ! b ! r = NaN \<or> beams once ! b ! r = beams data ! b ! r) \<and>
        (beams twice ! b ! r = NaN \<or> beams twice ! b ! r = beams once ! b ! r)) \<and>
     (N = 3 \<and> beams once = map (despeckle_window 3) (beams data) \<longrightarrow> twice = once)"
proof -
  have step: "linear_despeckle N a = Inr (a\<lparr>beams := map (first_gate \<circ> despeckle_window N) (beams a)\<rparr>) \<and>
      wf_array (a\<lparr>beams := map (first_gate \<circ> despeckle_window N) (beams a)\<rparr>) \<and>
      (\<forall>b < length (beams a). \<forall>r < last (shape a).
         (first_gate (despeckle_window N (beams a ! b)) ! r = NaN \<or>
          first_gate (despeckle_window N (beams a ! b)) ! r = beams a ! b ! r))"
    if a: "wf_array a" "2 \<le> last (shape a)" for a
  proof (intro conjI allI impI)
    from a have ne: "shape a \<noteq> []" by (simp add: wf_array_def)
    show "linear_despeckle N a = Inr (a\<lparr>beams := map (first_gate \<circ> despeckle_window N) (beams a)\<rparr>)"
      by (rule linear_despeckle_ok [OF assms(2) ne a(2)])
    show "wf_array (a\<lparr>beams := map (first_gate \<circ> despeckle_window N) (beams a)\<rparr>)"
      using a(1) by (simp add: wf_array_def list_all_iff first_gate_length despeckle_window_length)
  next
    fix b r assume br: "b < length (beams a)" "r < last (shape a)"
    with a(1) have len: "length (beams a ! b) = last (shape a)"
      by (auto simp: wf_array_def list_all_length)
    let ?w = "despeckle_window N (beams a ! b)"
    have "r < length ?w" using br len by (simp add: despeckle_window_length)
    from first_gate_nth [OF this] despeckle_window_nth [of r "beams a ! b" N] br len
    show "first_gate ?w ! r = NaN \<or> first_gate ?w ! r = beams a ! b ! r" by auto
  qed
  let ?once = "data\<lparr>beams := map (first_gate \<circ> despeckle_window N) (beams data)\<rparr>"
  let ?twice = "?once\<lparr>beams := map (first_gate \<circ> despeckle_window N) (beams ?once)\<rparr>"
  from step [OF assms(1,3)] have 1: "linear_despeckle N data = Inr ?once" "wf_array ?once"
    and v1: "\<forall>b < length (beams data). \<forall>r < last (shape data).
         (first_gate (despeckle_window N (beams data ! b)) ! r = NaN \<or>
          first_gate (despeckle_window N (beams data ! b)) ! r = beams data ! b ! r)"
    by auto
  have s1: "2 \<le> last (shape ?once)" using assms(3) by simp
  from step [OF 1(2) s1] have 2: "linear_despeckle N ?once = Inr ?twice" "wf_array ?twice"
    and v2: "\<forall>b < length (beams ?once). \<forall>r < last (shape ?once).
         (first_gate (despeckle_window N (beams ?once ! b)) ! r = NaN \<or>
          first_gate (despeckle_window N (beams ?once ! b)) ! r = beams ?once ! b ! r)"
    by auto
  have 3: "(beams ?once ! b ! r = NaN \<or> beams ?once ! b ! r = beams data ! b ! r) \<and>
        (beams ?twice ! b ! r = NaN \<or> beams ?twice ! b ! r = beams ?once ! b ! r)"
    if "b < length (beams data)" "r < last (shape data)" for b r
  proof -
    from v1 that have "first_gate (despeckle_window N (beams data ! b)) ! r = NaN \<or>
          first_gate (despeckle_window N (beams data ! b)) ! r = beams data ! b ! r" by blast
    moreover from v2 that have "first_gate (despeckle_window N (beams ?once ! b)) ! r = NaN \<or>
          first_gate (despeckle_window N (beams ?once ! b)) ! r = beams ?once ! b ! r" by simp
    ultimately show ?thesis using that(1) by simp
  qed
  have 4: "?twice = ?once" if n3: "N = 3" and c: "beams ?once = map (despeckle_window 3) (beams data)"
  proof -
    from c n3 have "\<forall>d \<in> set (beams data). first_gate (despeckle_window 3 d) = despeckle_window 3 d"
      by simp
    then have "\<forall>d \<in> set (beams data).
        first_gate (despeckle_window 3 (first_gate (despeckle_window 3 d))) =
        first_gate (despeckle_window 3 d)"
      by (intro ballI despeckle_beam3_fixed) blast
    then have "map (first_gate \<circ> despeckle_window 3) (map (first_gate \<circ> despeckle_window 3) (beams data)) =
        map (first_gate \<circ> despeckle_window 3) (beams data)"
      by simp
    with n3 show ?thesis by simp
  qed
  have sh: "shape ?once = shape data" "shape ?twice = shape data" by simp_all
  from 1 2 3 4 sh show ?thesis by blast
qed

theorem linear_despeckle_twice_witness:
  "wf_array speckle_inner \<and> ((3::nat) = 3 \<or> (3::nat) = 5) \<and> 2 \<le> last (shape speckle_inner) \<and>
   linear_despeckle 3 speckle_inner = Inr \<lparr>shape = [5], beams = [[Val 1, Val 2, NaN, NaN, NaN]]\<rparr> \<and>
   [[Val 1, Val 2, NaN, NaN, NaN]] = map (despeckle_window 3) (beams speckle_inner) \<and>
   linear_despeckle 3 \<lparr>shape = [5], beams = [[Val 1, Val 2, NaN, NaN, NaN]]\<rparr> =
     Inr \<lparr>shape = [5], beams = [[Val 1, Val 2, NaN, NaN, NaN]]\<rparr>"
proof -
  let ?x = "\<lparr>shape = [5], beams = [[Val 1, Val 2, NaN, NaN, NaN]]\<rparr>"
  have h1: "wf_array speckle_inner" by (simp add: wf_array_def speckle_inner_def)
  have h2: "(3::nat) = 3 \<or> (3::nat) = 5" by simp
  have h3: "2 \<le> last (shape speckle_inner)" by (simp add: speckle_inner_def)
  have e: "linear_despeckle 3 speckle_inner = Inr ?x"
    unfolding speckle_inner_def by code_simp
  have c: "[[Val 1, Val 2, NaN, NaN, NaN]] = map (despeckle_window 3) (beams speckle_inner)"
    unfolding speckle_inner_def by code_simp
  from linear_despeckle_twice [OF h1 h2 h3] obtain once twice where
    o: "linear_despeckle 3 speckle_inner = Inr once" "linear_despeckle 3 once = Inr twice"
    and i: "beams once = map (despeckle_window 3) (beams speckle_inner) \<longrightarrow> twice = once"
    by blast
  from o(1) e have x: "once = ?x" by simp
  with c i have "twice = once" by simp
  with o(2) x have "linear_despeckle 3 ?x = Inr ?x" by simp
  with h1 h2 h3 e c show ?thesis by blast
qed

text \<open>
  C9. On an array of at least two axes, none of them empty, texture returns an array of
  the same shape; when every sample is the same value, the texture is exactly zero at
  every position; and at every position whose centre sample is NaN the texture is NaN,
  whatever the neighbours are.
\<close>

theorem texture_constant_and_nan:
  assumes "wf_array data" "2 \<le> length (shape data)"
    and "0 < last (butlast (shape data))" "0 < last (shape data)"
  shows "\<exists>out. texture data = Inr out \<and> shape out = shape data \<and>
     length (beams out) = length (beams data) \<and>
     (\<forall>c. (\<forall>b < length (beams data). \<forall>r < last (shape data). beams data ! b ! r = Val c) \<longrightarrow>
          (\<forall>b < length (beams data). \<forall>r < last (shape data). beams out ! b ! r = Val 0)) \<and>
     (\<forall>b < length (beams data). \<forall>r < last (shape data).
        beams data ! b ! r = NaN \<longrightarrow> beams out ! b ! r = NaN)"
proof -
  let ?nb = "last (butlast (shape data))"
  let ?n = "last (shape data)"
  let ?out = "data\<lparr>beams := concat (map texture2d (split_slabs ?nb (beams data)))\<rparr>"
  have o: "texture data = Inr ?out"
    using assms(2,3,4) by (simp add: texture_def)
  from assms(1) have rows: "\<forall>row \<in> set (beams data). length row = ?n"
    by (simp add: wf_array_def list_all_iff)
  have beam: "\<exists>slab i. beams ?out ! b = texture2d slab ! i \<and> i < length slab \<and>
      slab ! i = beams data ! b \<and> rect ?nb ?n slab \<and> set slab \<subseteq> set (beams data)"
    if "b < length (beams data)" for b
    using texture_beam [OF assms that] o by auto
  have len: "length (beams ?out) = length (beams data)"
  proof (cases "beams data")
    case Nil
    then show ?thesis by (simp add: split_slabs_def)
  next
    case (Cons x xs)
    then have "0 < length (beams data)" by simp
    from texture_beam [OF assms this] o show ?thesis by auto
  qed
  have const: "beams ?out ! b ! r = Val 0"
    if c: "\<forall>b < length (beams data). \<forall>r < ?n. beams data ! b ! r = Val c"
      and b: "b < length (beams data)" and r: "r < ?n" for c b r
  proof -
    from beam [OF b] obtain slab i where s: "beams ?out ! b = texture2d slab ! i"
      "i < length slab" "rect ?nb ?n slab" "set slab \<subseteq> set (beams data)" by blast
    have "\<forall>row \<in> set slab. \<forall>x \<in> set row. x = Val c"
    proof (intro ballI)
      fix row x assume "row \<in> set slab" "x \<in> set row"
      with s(4) have "row \<in> set (beams data)" by auto
      then obtain b' where b': "b' < length (beams data)" "row = beams data ! b'"
        by (auto simp: in_set_conv_nth)
      with rows have "length row = ?n" by auto
      with \<open>x \<in> set row\<close> obtain r' where "r' < ?n" "x = row ! r'"
        by (auto simp: in_set_conv_nth)
      with c b' show "x = Val c" by simp
    qed
    from texture2d_const [OF s(3) this] s(1,2,3) r show ?thesis
      by (simp add: rect_def)
  qed
  have nan: "beams ?out ! b ! r = NaN"
    if b: "b < length (beams data)" and r: "r < ?n" and v: "beams data ! b ! r = NaN" for b r
  proof -
    from beam [OF b] obtain slab i where s: "beams ?out ! b = texture2d slab ! i"
      "i < length slab" "slab ! i = beams data ! b" "rect ?nb ?n slab" by blast
    from s(2,4) have "length (slab ! i) = ?n" by (simp add: rect_def)
    with s r v show ?thesis by (simp add: texture2d_nan)
  qed
  have sh: "shape ?out = shape data" by simp
  from o sh len const nan show ?thesis by blast
qed

theorem texture_constant_and_nan_witness:
  "wf_array flat_field \<and> 2 \<le> length (shape flat_field) \<and>
   0 < last (butlast (shape flat_field)) \<and> 0 < last (shape flat_field) \<and>
   beams flat_field = replicate 2 (replicate 3 (Val 4)) \<and>
   (\<exists>out. texture flat_field = Inr out \<and> shape out = shape flat_field \<and>
      (\<forall>b < length (beams flat_field). \<forall>r < last (shape flat_field). beams out ! b ! r = Val 0))"
proof -
  have h1: "wf_array flat_field" by (simp add: wf_array_def flat_field_def)
  have h2: "2 \<le> length (shape flat_field)" by (simp add: flat_field_def)
  have h3: "0 < last (butlast (shape flat_field))" by (simp add: flat_field_def)
  have h4: "0 < last (shape flat_field)" by (simp add: flat_field_def)
  have h5: "beams flat_field = replicate 2 (replicate 3 (Val 4))"
    by (simp add: flat_field_def numeral_3_eq_3 numeral_2_eq_2)
  have h6: "\<forall>b < length (beams flat_field). \<forall>r < last (shape flat_field).
      beams flat_field ! b ! r = Val 4"
    unfolding h5 by (simp add: flat_field_def)
  from texture_constant_and_nan [OF h1 h2 h3 h4] h6 h1 h2 h3 h4 h5
  show ?thesis by blast
qed

text \<open>
  C4, as the spec states it, fails: with \<open>copy = False\<close> and a quality array of another
  shape, the assertion is raised by the unfolding stage, after linear_despeckle and
  fill_phidp have written into the caller's array.
\<close>

theorem process_raw_phidp_mismatch_modifies:
  "process_raw_phidp False any_f_unfold_phi any_medfilt raw_phidp short_rho 3 3 5 5 False =
     (Inl AssertionError,
      \<lparr>shape = [1, 6], beams = [[Val (5 / 2), Val (5 / 2), Val 2, Val 3, Val (13 / 4), Val 4]]\<rparr>) \<and>
   \<lparr>shape = [1, 6], beams = [[Val (5 / 2), Val (5 / 2), Val 2, Val 3, Val (13 / 4), Val 4]]\<rparr> \<noteq>
     raw_phidp"
proof -
  let ?p1 = "\<lparr>shape = [1, 6], beams = [[NaN, NaN, Val 2, Val 3, NaN, Val 4]]\<rparr>"
  let ?p2 = "\<lparr>shape = [1, 6], beams = [[Val (5 / 2), Val (5 / 2), Val 2, Val 3, Val (13 / 4), Val 4]]\<rparr>"
  have 1: "linear_despeckle 3 raw_phidp = Inr ?p1"
    unfolding raw_phidp_def by code_simp
  have 2: "fill_phidp 3 ?p1 = Inr ?p2"
    by code_simp
  have 3: "unfold_phi_naive any_medfilt ?p2 short_rho 5 = Inl AssertionError"
    by (rule unfold_mismatch) (simp add: short_rho_def)
  have a: "process_raw_phidp False any_f_unfold_phi any_medfilt raw_phidp short_rho 3 3 5 5 False =
     (Inl AssertionError, ?p2)"
    unfolding process_raw_phidp_def by (simp only: 1 2 3 sum.case if_False)
  have b: "?p2 \<noteq> raw_phidp"
    by (simp add: raw_phidp_def)
  from a b show ?thesis ..
qed

text \<open>
  C4, amended. When the shape of \<open>rho\<close> differs from the shape of \<open>phidp\<close> (and the
  despeckle width is 3 or 5 and the beams have at least two gates, so that the first
  stage does not raise), process_raw_phidp raises the shape assertion, with either
  unfolding routine, after despeckling and gap filling: with \<open>copy = False\<close> the caller's
  array then holds the despeckled and gap-filled data, with \<open>copy = True\<close> it is untouched.
\<close>

theorem process_raw_phidp_mismatch:
  assumes "shape rho \<noteq> shape phidp" "wf_array phidp"
    and "N_despeckle = 3 \<or> N_despeckle = 5" "2 \<le> last (shape phidp)"
  shows "\<exists>p1 p2. linear_despeckle N_despeckle phidp = Inr p1 \<and>
     fill_phidp N_fillmargin p1 = Inr p2 \<and>
     process_raw_phidp speedupexists f_unfold_phi medfilt phidp rho
         N_despeckle N_fillmargin N_unfold N_filter copy =
       (Inl AssertionError, if copy then phidp else p2)"
proof -
  let ?p1 = "phidp\<lparr>beams := map (first_gate \<circ> despeckle_window N_despeckle) (beams phidp)\<rparr>"
  from assms(2) have ne: "shape phidp \<noteq> []" by (simp add: wf_array_def)
  have 1: "linear_despeckle N_despeckle phidp = Inr ?p1"
    by (rule linear_despeckle_ok [OF assms(3) ne assms(4)])
  have ne1: "shape ?p1 \<noteq> []" using ne by simp
  have pos1: "0 < last (shape ?p1)" using assms(4) by simp
  from fill_phidp_total [OF ne1 pos1, of N_fillmargin] obtain outs where
    2: "fill_phidp N_fillmargin ?p1 = Inr (?p1\<lparr>beams := outs\<rparr>)" by blast
  let ?p2 = "?p1\<lparr>beams := outs\<rparr>"
  have sh: "shape rho \<noteq> shape ?p2" using assms(1) by simp
  have 3: "(if speedupexists then unfold_phi f_unfold_phi medfilt ?p2 rho N_unfold
            else unfold_phi_naive medfilt ?p2 rho N_unfold) = Inl AssertionError"
    using unfold_mismatch [OF sh] by simp
  have "process_raw_phidp speedupexists f_unfold_phi medfilt phidp rho
         N_despeckle N_fillmargin N_unfold N_filter copy =
       (Inl AssertionError, if copy then phidp else ?p2)"
    unfolding process_raw_phidp_def 1 2 sum.case 3 by simp
  with 1 2 show ?thesis by blast
qed

theorem process_raw_phidp_mismatch_witness:
  "shape short_rho \<noteq> shape raw_phidp \<and> wf_array raw_phidp \<and> ((3::nat) = 3 \<or> (3::nat) = 5) \<and>
   2 \<le> last (shape raw_phidp) \<and>
   (\<exists>p1 p2. linear_despeckle 3 raw_phidp = Inr p1 \<and> fill_phidp 3 p1 = Inr p2 \<and>
     process_raw_phidp False any_f_unfold_phi any_medfilt raw_phidp short_rho 3 3 5 5 False =
       (Inl AssertionError, if False then raw_phidp else p2))"
proof -
  have h1: "shape short_rho \<noteq> shape raw_phidp" by (simp add: short_rho_def raw_phidp_def)
  have h2: "wf_array raw_phidp" by (simp add: wf_array_def raw_phidp_def)
  have h3: "(3::nat) = 3 \<or> (3::nat) = 5" by simp
  have h4: "2 \<le> last (shape raw_phidp)" by (simp add: raw_phidp_def)
  from process_raw_phidp_mismatch [OF h1 h2 h3 h4] h1 h2 h3 h4
  show ?thesis by blast
qed

text \<open>
  C3 on the code. With \<open>width = 3\<close>, on a beam whose dispersion is 0 and whose quality is
  1 at every gate, the window \<open>[0, 3)\<close> meets both conditions of the claim, but the code
  compares the count over \<open>rho[j:j+5]\<close> with \<open>width\<close>, finds no window, and leaves
  \<open>j\<close> at the last index 4: the beam comes back folded, for every gradient, where
  tracking from the window \<open>[0, 3)\<close> unfolds it.
\<close>

theorem onset_search_width_three:
  "std_windows folded_beam = replicate 8 (Val 0) \<and>
   count_lt (slice (std_windows folded_beam) 0 (0 + 3)) 5 = 3 \<and>
   count_gt (slice good_rho 0 (0 + 3)) 0.9 = 3 \<and>
   onset_search (std_windows folded_beam) good_rho 3 [0..<8 - 3] None = Some 4 \<and>
   unfold_beam 3 8 None (std_windows folded_beam) gradphi good_rho folded_beam =
     Inr (Some 4, folded_beam) \<and>
   track (std_windows folded_beam) (replicate 8 (Val 0)) 3 [0 + 3..<8]
       (np_mean (slice folded_beam 0 (0 + 3))) folded_beam =
     [Val 100, Val 100, Val 100, Val 110, Val 110, Val 110, Val 110, Val 110]"
proof -
  have s: "std_windows folded_beam = replicate 8 (Val 0)"
    by (simp add: std_windows_def folded_beam_def upt_rec [of _ 8] numeral_eq_Suc)
  have c1: "count_lt (slice (replicate 8 (Val 0)) 0 (0 + 3)) 5 = 3"
    by code_simp
  have c2: "count_gt (slice good_rho 0 (0 + 3)) 0.9 = 3"
    unfolding good_rho_def by code_simp
  have o: "onset_search (replicate 8 (Val 0)) good_rho 3 [0..<8 - 3] None = Some 4"
    unfolding good_rho_def by code_simp
  have m: "np_mean (slice folded_beam 4 (4 + 3)) = Val (- 250)"
    unfolding folded_beam_def by code_simp
  have r: "[4 + 3..<8] = [7::nat]" by code_simp
  have p7: "folded_beam ! 7 = Val (- 250)" unfolding folded_beam_def by code_simp
  have nz: "\<not> list_all (\<lambda>x. x = Val 0) folded_beam" by (simp add: folded_beam_def)
  have u0: "unwrap_gate (Val (- 250)) 7 folded_beam = folded_beam"
    by (rule unwrap_gate_near [OF p7 refl]) simp
  have t: "track (replicate 8 (Val 0)) gradphi 3 [7] (Val (- 250)) folded_beam = folded_beam"
  proof (cases "gradphi ! 7")
    case NaN
    then show ?thesis by (simp add: u0)
  next
    case (Val g)
    show ?thesis
    proof (cases "- 5 < g \<and> g < 20")
      case True
      then have "\<not> - 250 - (- 250 + g * 0.5) < - 80" by simp
      from unwrap_gate_near [OF p7 refl this] Val True show ?thesis by (simp add: u0)
    next
      case False
      with Val show ?thesis by (auto simp: u0)
    qed
  qed
  have u: "unfold_beam 3 8 None (replicate 8 (Val 0)) gradphi good_rho folded_beam =
     Inr (Some 4, folded_beam)"
    unfolding unfold_beam_def by (simp only: nz if_False o option.case m r t Let_def)
  have m0: "np_mean (slice folded_beam 0 (0 + 3)) = Val 100"
    unfolding folded_beam_def by code_simp
  have tr: "track (replicate 8 (Val 0)) (replicate 8 (Val 0)) 3 [0 + 3..<8] (Val 100) folded_beam =
     [Val 100, Val 100, Val 100, Val 110, Val 110, Val 110, Val 110, Val 110]"
    unfolding folded_beam_def by code_simp
  show ?thesis unfolding s m0 using c1 c2 o u tr by simp
qed

end
